theory Spec2Isabelle
  imports Main "HOL-Library.Word"
begin

unbundle bit_operations_syntax

section \<open>The BJL converter: data model\<close>

text \<open>
  The embedding follows the browser bundle of the converter (classes \<open>BinaryReader\<close>,
  \<open>BinaryWriter\<close> and \<open>BJLConverter\<close>). Bytes are 8-bit words, a JavaScript
  exception is the \<open>Inl\<close> of a sum, and the functions of the platform that the converter
  calls (\<open>TextDecoder\<close>, \<open>TextEncoder\<close>, \<open>pako.gzip\<close>, \<open>pako.ungzip\<close>) are
  parameters, collected in a record.
\<close>

type_synonym byte = "8 word"

text \<open>A float32 is kept by its bit pattern: \<open>getFloat32\<close> widens the 32 bits to a number
  and \<open>setFloat32\<close> narrows the number to the same 32 bits.\<close>

type_synonym f32 = "32 word"

datatype error =
    OutOfBounds            \<comment> \<open>the RangeError of a DataView access outside the buffer\<close>
  | InvalidArrayLength     \<comment> \<open>the RangeError of \<open>new Array(count)\<close> with a negative count\<close>
  | UnsupportedVersion     \<comment> \<open>\<open>Unsupported BJL version\<close>\<close>
  | CacheMiss "string option" \<comment> \<open>\<open>String not in cache\<close>\<close>
  | UnsupportedValueType   \<comment> \<open>\<open>Unsupported value type\<close>\<close>
  | NotModelled            \<comment> \<open>a coercion of ECMAScript that the embedding does not cover\<close>

record platform =
  utf8_decode :: "byte list \<Rightarrow> string"        \<comment> \<open>\<open>new TextDecoder().decode(bytes)\<close>\<close>
  utf8_encode :: "string \<Rightarrow> byte list"        \<comment> \<open>\<open>new TextEncoder().encode(s)\<close>\<close>
  gzip :: "byte list \<Rightarrow> byte list"            \<comment> \<open>\<open>pako.gzip(bytes, {level: 9, mtime: 0})\<close>\<close>
  ungzip :: "byte list \<Rightarrow> byte list option"   \<comment> \<open>\<open>pako.ungzip(bytes)\<close>; \<open>None\<close> when it throws or gives no buffer\<close>

text \<open>
  JavaScript values as the converter meets them. An object is the list of its own
  enumerable properties in the order \<open>Object.keys\<close> lists them, and its prototype
  (\<open>None\<close> is \<open>Object.prototype\<close>). A number read with \<open>readInt\<close> is \<open>JNum\<close>, one
  read with \<open>readFloat\<close> is \<open>JFloat\<close>.
\<close>

datatype jsval =
    JUndef
  | JNull
  | JBool bool
  | JNum int
  | JFloat f32
  | JStr string
  | JArr "jsval list"
  | JObj "(string \<times> jsval) list" "jsval option"

record control_header =
  Name :: "string option"
  JavaType :: "string option"
  DesignerType :: "string option"

record layout_header =
  Version :: int
  GridSize :: int
  ControlsHeaders :: "control_header list"
  Files :: "string list"
  DesignerScript :: "string list"

record variant =
  Scale :: f32
  Width :: int
  Height :: int

record design =
  LayoutHeader :: layout_header
  Variants :: "variant list"
  Data :: jsval
  FontAwesome :: bool
  MaterialIcons :: bool

subsection \<open>Exceptions\<close>

definition rbind :: "error + 'a \<Rightarrow> ('a \<Rightarrow> error + 'b) \<Rightarrow> error + 'b" where
  "rbind m f = (case m of Inl e \<Rightarrow> Inl e | Inr x \<Rightarrow> f x)"

text \<open>A loop that may run forever has fuel: \<open>None\<close> is a run that did not end within it.\<close>

definition fbind :: "(error + 'a) option \<Rightarrow> ('a \<Rightarrow> (error + 'b) option) \<Rightarrow> (error + 'b) option" where
  "fbind m f = (case m of None \<Rightarrow> None | Some (Inl e) \<Rightarrow> Some (Inl e) | Some (Inr x) \<Rightarrow> f x)"

subsection \<open>Little-endian integers\<close>

definition le16 :: "byte \<Rightarrow> byte \<Rightarrow> 16 word" where
  "le16 a b = ucast a OR push_bit 8 (ucast b)"

definition le32 :: "byte \<Rightarrow> byte \<Rightarrow> byte \<Rightarrow> byte \<Rightarrow> 32 word" where
  "le32 a b c d = ucast a OR push_bit 8 (ucast b) OR push_bit 16 (ucast c) OR push_bit 24 (ucast d)"

definition to_le16 :: "16 word \<Rightarrow> byte list" where
  "to_le16 w = [ucast w, ucast (drop_bit 8 w)]"

definition to_le32 :: "32 word \<Rightarrow> byte list" where
  "to_le32 w = [ucast w, ucast (drop_bit 8 w), ucast (drop_bit 16 w), ucast (drop_bit 24 w)]"

definition is_nan :: "f32 \<Rightarrow> bool" where
  "is_nan w = (w AND 0x7F800000 = 0x7F800000 \<and> w AND 0x007FFFFF \<noteq> 0)"

text \<open>\<open>v || d\<close> on a float: zero, minus zero and NaN are falsy.\<close>

definition f32_falsy :: "f32 \<Rightarrow> bool" where
  "f32_falsy w = (w AND 0x7FFFFFFF = 0 \<or> is_nan w)"

section \<open>BinaryReader\<close>

record reader =
  buffer :: "byte list"
  offset :: int

definition in_view :: "reader \<Rightarrow> int \<Rightarrow> bool" where
  "in_view r n = (0 \<le> offset r \<and> offset r + n \<le> int (length (buffer r)))"

definition byte_at :: "reader \<Rightarrow> int \<Rightarrow> byte" where
  "byte_at r i = buffer r ! nat (offset r + i)"

definition readByte :: "reader \<Rightarrow> error + (byte \<times> reader)" where
  "readByte r =
     (if in_view r 1 then Inr (byte_at r 0, r\<lparr>offset := offset r + 1\<rparr>) else Inl OutOfBounds)"

definition readSignedByte :: "reader \<Rightarrow> error + (int \<times> reader)" where
  "readSignedByte r =
     (if in_view r 1 then Inr (sint (byte_at r 0), r\<lparr>offset := offset r + 1\<rparr>) else Inl OutOfBounds)"

definition readInt :: "reader \<Rightarrow> error + (int \<times> reader)" where
  "readInt r =
     (if in_view r 4
      then Inr (sint (le32 (byte_at r 0) (byte_at r 1) (byte_at r 2) (byte_at r 3)),
                r\<lparr>offset := offset r + 4\<rparr>)
      else Inl OutOfBounds)"

definition readFloat :: "reader \<Rightarrow> error + (f32 \<times> reader)" where
  "readFloat r =
     (if in_view r 4
      then Inr (le32 (byte_at r 0) (byte_at r 1) (byte_at r 2) (byte_at r 3),
                r\<lparr>offset := offset r + 4\<rparr>)
      else Inl OutOfBounds)"

text \<open>\<open>TypedArray.prototype.slice(start, end)\<close>: a negative index counts from the end,
  both are clamped to the array, and an empty range gives the empty array.\<close>

definition js_slice :: "'a list \<Rightarrow> int \<Rightarrow> int \<Rightarrow> 'a list" where
  "js_slice xs s e =
     (let n = int (length xs);
          k = (if s < 0 then max (n + s) 0 else min s n);
          f = (if e < 0 then max (n + e) 0 else min e n)
      in take (nat (f - k)) (drop (nat k) xs))"

definition readBytes :: "int \<Rightarrow> reader \<Rightarrow> byte list \<times> reader" where
  "readBytes len r = (js_slice (buffer r) (offset r) (offset r + len), r\<lparr>offset := offset r + len\<rparr>)"


section \<open>Decoding\<close>

subsection \<open>Strings and string caches\<close>

definition readString :: "platform \<Rightarrow> reader \<Rightarrow> error + (string \<times> reader)" where
  "readString P r =
     rbind (readInt r) (\<lambda>(len, r1).
       let (b, r2) = readBytes len r1 in Inr (utf8_decode P b, r2))"

text \<open>\<open>for (let i = 0; i < count; i++) arr.push(f(reader))\<close>.\<close>

fun read_n :: "nat \<Rightarrow> (reader \<Rightarrow> error + ('a \<times> reader)) \<Rightarrow> reader \<Rightarrow> error + ('a list \<times> reader)" where
  "read_n 0 f r = Inr ([], r)"
| "read_n (Suc n) f r =
     rbind (f r) (\<lambda>(x, r1). rbind (read_n n f r1) (\<lambda>(xs, r2). Inr (x # xs, r2)))"

definition loadStringsCache :: "platform \<Rightarrow> reader \<Rightarrow> error + (string list \<times> reader)" where
  "loadStringsCache P r =
     rbind (readInt r) (\<lambda>(count, r1).
       if count < 0 then Inl InvalidArrayLength
       else read_n (nat count) (readString P) r1)"

text \<open>\<open>cache[i]\<close> on an array: \<open>undefined\<close> (\<open>None\<close>) outside it.\<close>

definition array_get :: "'a list \<Rightarrow> int \<Rightarrow> 'a option" where
  "array_get xs i = (if 0 \<le> i \<and> i < int (length xs) then Some (xs ! nat i) else None)"

definition readCachedString :: "platform \<Rightarrow> string list \<Rightarrow> reader \<Rightarrow> error + (string option \<times> reader)" where
  "readCachedString P cache r =
     (if cache = [] then rbind (readString P r) (\<lambda>(s, r1). Inr (Some s, r1))
      else rbind (readInt r) (\<lambda>(i, r1). Inr (array_get cache i, r1)))"

subsection \<open>Objects\<close>

text \<open>
  The own property keys of an object are listed array indices first, in ascending numeric
  order, then the other strings in the order they were created. An array index is the
  canonical decimal form of a number below \<open>2^32 - 1\<close>.
\<close>

definition is_digit :: "char \<Rightarrow> bool" where
  "is_digit c = (48 \<le> (of_char c :: nat) \<and> (of_char c :: nat) \<le> 57)"

definition digits_val :: "string \<Rightarrow> nat" where
  "digits_val s = foldl (\<lambda>n c. 10 * n + (of_char c - 48)) 0 s"

definition is_array_index :: "string \<Rightarrow> bool" where
  "is_array_index s =
     (s \<noteq> [] \<and> list_all is_digit s \<and> (length s = 1 \<or> hd s \<noteq> CHR ''0'') \<and> digits_val s < 4294967295)"

definition has_own :: "(string \<times> 'v) list \<Rightarrow> string \<Rightarrow> bool" where
  "has_own ps k = (map_of ps k \<noteq> None)"

fun props_update :: "string \<Rightarrow> 'v \<Rightarrow> (string \<times> 'v) list \<Rightarrow> (string \<times> 'v) list" where
  "props_update k v [] = []"
| "props_update k v ((k', v') # ps) = (if k' = k then (k, v) # ps else (k', v') # props_update k v ps)"

fun props_insert_index :: "string \<Rightarrow> 'v \<Rightarrow> (string \<times> 'v) list \<Rightarrow> (string \<times> 'v) list" where
  "props_insert_index k v [] = [(k, v)]"
| "props_insert_index k v ((k', v') # ps) =
     (if is_array_index k' \<and> digits_val k' < digits_val k then (k', v') # props_insert_index k v ps
      else (k, v) # (k', v') # ps)"

text \<open>Creating or overwriting an own data property.\<close>

definition props_set :: "string \<Rightarrow> 'v \<Rightarrow> (string \<times> 'v) list \<Rightarrow> (string \<times> 'v) list" where
  "props_set k v ps =
     (if has_own ps k then props_update k v ps
      else if is_array_index k then props_insert_index k v ps
      else ps @ [(k, v)])"

text \<open>
  \<open>map[key] = value\<close> on an object that \<open>_readMap\<close> builds. The key \<open>__proto__\<close> is the
  accessor of \<open>Object.prototype\<close>: it replaces the prototype when the value is an object
  or \<open>null\<close>, and does nothing otherwise.
\<close>

definition is_object :: "jsval \<Rightarrow> bool" where
  "is_object v = (case v of JObj ps pr \<Rightarrow> True | JArr xs \<Rightarrow> True | _ \<Rightarrow> False)"

definition obj_assign :: "string \<Rightarrow> jsval \<Rightarrow> (string \<times> jsval) list \<times> jsval option \<Rightarrow> (string \<times> jsval) list \<times> jsval option" where
  "obj_assign k v acc =
     (if k = ''__proto__''
      then (if is_object v \<or> v = JNull then (fst acc, Some v) else acc)
      else (props_set k v (fst acc), snd acc))"

text \<open>A property key made from \<open>undefined\<close> is the string \<open>undefined\<close>.\<close>

definition to_key :: "string option \<Rightarrow> string" where
  "to_key s = (case s of None \<Rightarrow> ''undefined'' | Some k \<Rightarrow> k)"

definition str_or_undef :: "string option \<Rightarrow> jsval" where
  "str_or_undef s = (case s of None \<Rightarrow> JUndef | Some k \<Rightarrow> JStr k)"

subsection \<open>Type codes and tagged values\<close>

abbreviation (input) CINT :: int where "CINT \<equiv> 1"
abbreviation (input) CSTRING :: int where "CSTRING \<equiv> 2"
abbreviation (input) CMAP :: int where "CMAP \<equiv> 3"
abbreviation (input) ENDOFMAP :: int where "ENDOFMAP \<equiv> 4"
abbreviation (input) BOOL :: int where "BOOL \<equiv> 5"
abbreviation (input) CCOLOR :: int where "CCOLOR \<equiv> 6"
abbreviation (input) CFLOAT :: int where "CFLOAT \<equiv> 7"
abbreviation (input) CACHED_STRING :: int where "CACHED_STRING \<equiv> 9"
abbreviation (input) RECT32 :: int where "RECT32 \<equiv> 11"
abbreviation (input) CNULL :: int where "CNULL \<equiv> 12"

text \<open>The object literal \<open>{ ValueType: type, Value: v }\<close>.\<close>

definition tagged :: "int \<Rightarrow> jsval \<Rightarrow> jsval" where
  "tagged t v = JObj [(''ValueType'', JNum t), (''Value'', v)] None"

definition tagged_null :: jsval where
  "tagged_null = JObj [(''ValueType'', JNum CNULL)] None"

definition hex_digit :: "nat \<Rightarrow> char" where
  "hex_digit n = ''0123456789ABCDEF'' ! n"

text \<open>\<open>b.toString(16).padStart(2, '0')\<close> of every byte, joined and upper-cased.\<close>

definition hexFromBytes :: "byte list \<Rightarrow> string" where
  "hexFromBytes d = concat (map (\<lambda>b. [hex_digit (unat b div 16), hex_digit (unat b mod 16)]) d)"

definition color_value :: "byte list \<Rightarrow> jsval" where
  "color_value d = tagged CCOLOR (JStr (''0x'' @ hexFromBytes d))"

text \<open>The four \<open>getInt16(i, true)\<close> over the eight bytes of a rectangle: the view is as long
  as the slice, so a shorter slice raises RangeError.\<close>

definition shortsFromBytes8 :: "byte list \<Rightarrow> error + int list" where
  "shortsFromBytes8 d =
     (if length d < 8 then Inl OutOfBounds
      else Inr [sint (le16 (d ! 0) (d ! 1)), sint (le16 (d ! 2) (d ! 3)),
                sint (le16 (d ! 4) (d ! 5)), sint (le16 (d ! 6) (d ! 7))])"

text \<open>The cases of the \<open>switch\<close> of \<open>_readMap\<close> other than \<open>CMAP\<close>; \<open>None\<close> is its
  \<open>default\<close>.\<close>

definition read_scalar :: "platform \<Rightarrow> string list \<Rightarrow> int \<Rightarrow> reader \<Rightarrow> (error + (jsval \<times> reader)) option" where
  "read_scalar P cache type r =
     (if type = CINT then Some (rbind (readInt r) (\<lambda>(v, r1). Inr (JNum v, r1)))
      else if type = CACHED_STRING
        then Some (rbind (readCachedString P cache r) (\<lambda>(s, r1). Inr (str_or_undef s, r1)))
      else if type = CFLOAT then Some (rbind (readFloat r) (\<lambda>(v, r1). Inr (tagged type (JFloat v), r1)))
      else if type = CSTRING then Some (rbind (readString P r) (\<lambda>(s, r1). Inr (tagged type (JStr s), r1)))
      else if type = BOOL then Some (rbind (readSignedByte r) (\<lambda>(b, r1). Inr (JBool (b = 1), r1)))
      else if type = CNULL then Some (Inr (tagged_null, r))
      else if type = CCOLOR then Some (let (d, r1) = readBytes 4 r in Inr (color_value d, r1))
      else if type = RECT32
        then Some (let (d, r1) = readBytes 8 r
                   in rbind (shortsFromBytes8 d) (\<lambda>shorts. Inr (tagged type (JArr (map JNum shorts)), r1)))
      else None)"

text \<open>
  \<open>_readMap\<close>: the \<open>while (true)\<close> loop with the map built so far, and the recursive call
  for a nested map. A negative length moves the cursor back, so the loop need not end: each
  turn and each nested call takes one unit of fuel.
\<close>

fun readMap :: "platform \<Rightarrow> nat \<Rightarrow> string list \<Rightarrow> (string \<times> jsval) list \<times> jsval option \<Rightarrow> reader
    \<Rightarrow> (error + (jsval \<times> reader)) option" where
  "readMap P 0 cache acc r = None"
| "readMap P (Suc n) cache acc r =
     fbind (Some (readCachedString P cache r)) (\<lambda>(key, r1).
     fbind (Some (readSignedByte r1)) (\<lambda>(type, r2).
       if type = ENDOFMAP then Some (Inr (JObj (fst acc) (snd acc), r2))
       else if type = CMAP then
         fbind (readMap P n cache ([], None) r2) (\<lambda>(value, r3).
           readMap P n cache (obj_assign (to_key key) value acc) r3)
       else (case read_scalar P cache type r2 of
               None \<Rightarrow> Some (Inr (JObj (fst acc) (snd acc), r2))
             | Some res \<Rightarrow>
                 fbind (Some res) (\<lambda>(value, r3).
                   readMap P n cache (obj_assign (to_key key) value acc) r3))))"


subsection \<open>The script block\<close>

text \<open>\<open>value << shift\<close>: the shift count is taken modulo 32 and the result is an int32.\<close>

definition shl32 :: "int \<Rightarrow> nat \<Rightarrow> int" where
  "shl32 v s = sint (push_bit (s mod 32) (word_of_int v :: 32 word))"

text \<open>The \<open>while (true)\<close> loop of \<open>_readBinaryString\<close>, with the length and the shift so
  far. Each turn reads one byte, so it ends at the end of the buffer at the latest.\<close>

function readBinaryLength :: "int \<Rightarrow> nat \<Rightarrow> reader \<Rightarrow> error + (int \<times> reader)" where
  "readBinaryLength len shift r =
     (case readSignedByte r of
        Inl e \<Rightarrow> Inl e
      | Inr (b, r1) \<Rightarrow>
          (let v = b AND 0x7f; len1 = len + shl32 v shift
           in if b = v then Inr (len1, r1) else readBinaryLength len1 (shift + 7) r1))"
  by pat_completeness auto
termination
  by (relation "measure (\<lambda>(len, shift, r). nat (int (length (buffer r)) - offset r))")
     (auto simp add: readSignedByte_def in_view_def split: if_splits)

definition readBinaryString :: "platform \<Rightarrow> reader \<Rightarrow> error + (string \<times> reader)" where
  "readBinaryString P r =
     rbind (readBinaryLength 0 0 r) (\<lambda>(len, r1).
       let (d, r2) = readBytes len r1 in Inr (utf8_decode P d, r2))"

definition readVariantFromStream :: "reader \<Rightarrow> error + (variant \<times> reader)" where
  "readVariantFromStream r =
     rbind (readFloat r) (\<lambda>(s, r1).
     rbind (readInt r1) (\<lambda>(w, r2).
     rbind (readInt r2) (\<lambda>(h, r3).
       Inr (\<lparr>Scale = s, Width = w, Height = h\<rparr>, r3))))"

text \<open>The body of the \<open>try\<close> of \<open>_readScripts\<close>; \<open>None\<close> when it throws.\<close>

definition read_script_stream :: "platform \<Rightarrow> reader \<Rightarrow> error + (string list \<times> reader)" where
  "read_script_stream P script =
     rbind (readBinaryString P script) (\<lambda>(general, s1).
     rbind (readInt s1) (\<lambda>(NumberOfVariants, s2).
     rbind (read_n (nat NumberOfVariants)
              (\<lambda>s. rbind (readVariantFromStream s) (\<lambda>(v, s'). readBinaryString P s')) s2)
       (\<lambda>(rest, s3). Inr (general # rest, s3))))"

definition try_read_scripts :: "platform \<Rightarrow> byte list \<Rightarrow> string list option" where
  "try_read_scripts P rawData =
     (case ungzip P rawData of
        None \<Rightarrow> None
      | Some decompressed \<Rightarrow>
          (case read_script_stream P \<lparr>buffer = decompressed, offset = 0\<rparr> of
             Inl e \<Rightarrow> None
           | Inr (res, s) \<Rightarrow> Some res))"

definition readScripts :: "platform \<Rightarrow> reader \<Rightarrow> error + (string list \<times> reader)" where
  "readScripts P r =
     rbind (readInt r) (\<lambda>(len, r1).
       let (rawData, r2) = readBytes len r1
       in Inr (case try_read_scripts P rawData of None \<Rightarrow> [] | Some res \<Rightarrow> res, r2))"

subsection \<open>The layout header\<close>

definition read_control_header :: "platform \<Rightarrow> string list \<Rightarrow> reader \<Rightarrow> error + (control_header \<times> reader)" where
  "read_control_header P cache r =
     rbind (readCachedString P cache r) (\<lambda>(n, r1).
     rbind (readCachedString P cache r1) (\<lambda>(j, r2).
     rbind (readCachedString P cache r2) (\<lambda>(d, r3).
       Inr (\<lparr>Name = n, JavaType = j, DesignerType = d\<rparr>, r3))))"

definition readLayoutHeader :: "platform \<Rightarrow> reader \<Rightarrow> error + (layout_header \<times> reader)" where
  "readLayoutHeader P r =
     rbind (readInt r) (\<lambda>(version, r1).
       let h = \<lparr>Version = version, GridSize = 10, ControlsHeaders = [], Files = [],
                DesignerScript = []\<rparr>
       in if version < 3 then Inr (h, r1)
          else
            let r2 = r1\<lparr>offset := offset r1 + 4\<rparr>
            in rbind (if version \<ge> 4 then readInt r2 else Inr (10, r2)) (\<lambda>(grid, r3).
               rbind (loadStringsCache P r3) (\<lambda>(cache, r4).
               rbind (readInt r4) (\<lambda>(cCount, r5).
               rbind (read_n (nat cCount) (read_control_header P cache) r5) (\<lambda>(controls, r6).
               rbind (readInt r6) (\<lambda>(fCount, r7).
               rbind (read_n (nat fCount) (readString P) r7) (\<lambda>(files, r8).
               rbind (readScripts P r8) (\<lambda>(scripts, r9).
                 Inr (h\<lparr>GridSize := grid, ControlsHeaders := controls, Files := files,
                        DesignerScript := scripts\<rparr>, r9)))))))))"

subsection \<open>The document\<close>

definition read_variant :: "reader \<Rightarrow> error + (variant \<times> reader)" where
  "read_variant r =
     rbind (readFloat r) (\<lambda>(s, r1).
     rbind (readInt r1) (\<lambda>(w, r2).
     rbind (readInt r2) (\<lambda>(h, r3).
       Inr (\<lparr>Scale = s, Width = w, Height = h\<rparr>, r3))))"

text \<open>\<open>convertBjlToJsonFromBytes\<close>, with the fuel of \<open>_readMap\<close>.\<close>

definition convertBjlToJsonFromBytes :: "platform \<Rightarrow> nat \<Rightarrow> byte list \<Rightarrow> (error + design) option" where
  "convertBjlToJsonFromBytes P fuel bytes =
     fbind (Some (readLayoutHeader P \<lparr>buffer = bytes, offset = 0\<rparr>)) (\<lambda>(header, r1).
       if Version header < 3 then Some (Inl UnsupportedVersion)
       else
         fbind (Some (loadStringsCache P r1)) (\<lambda>(cache, r2).
         fbind (Some (readInt r2)) (\<lambda>(variantCount, r3).
         fbind (Some (read_n (nat variantCount) read_variant r3)) (\<lambda>(variants, r4).
         fbind (readMap P fuel cache ([], None) r4) (\<lambda>(data, r5).
         fbind (Some (readInt r5)) (\<lambda>(padding, r6).
         fbind (Some (readSignedByte r6)) (\<lambda>(fa, r7).
         fbind (Some (readSignedByte r7)) (\<lambda>(mi, r8).
           Some (Inr \<lparr>LayoutHeader = header, Variants = variants, Data = data,
                      FontAwesome = (fa = 1), MaterialIcons = (mi = 1)\<rparr>)))))))))"


section \<open>BinaryWriter\<close>

text \<open>
  The writer is the list of the bytes written so far (\<open>getBuffer()\<close>, the first
  \<open>offset\<close> bytes of the backing array): \<open>ensure\<close> doubles the array before a write
  that would not fit, so no write is out of range.
\<close>

definition writeByte :: "byte list \<Rightarrow> int \<Rightarrow> byte list" where
  "writeByte w v = w @ [word_of_int v]"

definition writeInt :: "byte list \<Rightarrow> int \<Rightarrow> byte list" where
  "writeInt w v = w @ to_le32 (word_of_int v)"

definition writeFloat :: "byte list \<Rightarrow> f32 \<Rightarrow> byte list" where
  "writeFloat w v = w @ to_le32 v"

definition writeBytes :: "byte list \<Rightarrow> byte list \<Rightarrow> byte list" where
  "writeBytes w bytes = w @ bytes"

definition updateInt :: "byte list \<Rightarrow> nat \<Rightarrow> int \<Rightarrow> byte list" where
  "updateInt w pos v = take pos w @ to_le32 (word_of_int v) @ drop (pos + 4) w"

section \<open>Encoding\<close>

subsection \<open>Strings and string caches\<close>

definition writeString :: "platform \<Rightarrow> byte list \<Rightarrow> string \<Rightarrow> byte list" where
  "writeString P w s = (let b = utf8_encode P s in writeBytes (writeInt w (int (length b))) b)"

text \<open>
  A cache of the encoder is an object used as a dictionary from strings to indices.
  \<open>key in cache\<close> also holds for the properties that every object inherits from
  \<open>Object.prototype\<close>.
\<close>

definition object_prototype_keys :: "string list" where
  "object_prototype_keys =
     [''constructor'', ''__defineGetter__'', ''__defineSetter__'', ''hasOwnProperty'',
      ''__lookupGetter__'', ''__lookupSetter__'', ''isPrototypeOf'', ''propertyIsEnumerable'',
      ''toString'', ''valueOf'', ''__proto__'', ''toLocaleString'']"

definition in_obj :: "string \<Rightarrow> (string \<times> 'v) list \<Rightarrow> bool" where
  "in_obj k ps = (has_own ps k \<or> k \<in> set object_prototype_keys)"

text \<open>\<open>if (!(key in cache)) { cache[key] = Object.keys(cache).length; order.push(key); }\<close>\<close>

definition cache_add :: "string \<Rightarrow> (string \<times> nat) list \<times> string list \<Rightarrow> (string \<times> nat) list \<times> string list" where
  "cache_add k st =
     (if in_obj k (fst st) then st else (props_set k (length (fst st)) (fst st), snd st @ [k]))"

text \<open>\<open>val.ValueType\<close> and \<open>val.Value\<close>: the own property, or the one of the prototype
  chain. \<open>Object.prototype\<close> and \<open>Array.prototype\<close> have neither.\<close>

fun get_prop :: "jsval \<Rightarrow> string \<Rightarrow> jsval" where
  "get_prop (JObj ps pr) k =
     (case map_of ps k of
        Some v \<Rightarrow> v
      | None \<Rightarrow> (case pr of None \<Rightarrow> JUndef | Some p \<Rightarrow> get_prop p k))"
| "get_prop v k = JUndef"

fun show_nat :: "nat \<Rightarrow> string" where
  "show_nat n = (if n < 10 then [hex_digit n] else show_nat (n div 10) @ [hex_digit (n mod 10)])"

declare show_nat.simps [simp del]

text \<open>\<open>Object.keys(m)\<close> with \<open>m[k]\<close>: the own properties of an object, the indices of an
  array or of a string; a number or a boolean has none, and \<open>json.Data || {}\<close> is the empty
  object for a value that is falsy.\<close>

definition own_props :: "jsval \<Rightarrow> (string \<times> jsval) list" where
  "own_props v =
     (case v of
        JObj ps pr \<Rightarrow> ps
      | JArr xs \<Rightarrow> zip (map show_nat [0..<length xs]) xs
      | JStr s \<Rightarrow> zip (map show_nat [0..<length s]) (map (\<lambda>c. JStr [c]) s)
      | _ \<Rightarrow> [])"

fun collectStringsInOrder :: "jsval \<Rightarrow> (string \<times> nat) list \<times> string list \<Rightarrow> (string \<times> nat) list \<times> string list"
  and collect_items :: "jsval list \<Rightarrow> (string \<times> nat) list \<times> string list \<Rightarrow> (string \<times> nat) list \<times> string list"
  and collect_props :: "(string \<times> jsval) list \<Rightarrow> (string \<times> nat) list \<times> string list \<Rightarrow> (string \<times> nat) list \<times> string list"
where
  "collectStringsInOrder (JArr xs) st = collect_items xs st"
| "collectStringsInOrder (JObj ps pr) st = collect_props ps st"
| "collectStringsInOrder JUndef st = st"
| "collectStringsInOrder JNull st = st"
| "collectStringsInOrder (JBool b) st = st"
| "collectStringsInOrder (JNum n) st = st"
| "collectStringsInOrder (JFloat f) st = st"
| "collectStringsInOrder (JStr s) st = st"
| "collect_items [] st = st"
| "collect_items (x # xs) st = collect_items xs (collectStringsInOrder x st)"
| "collect_props [] st = st"
| "collect_props ((key, val) # ps) st =
     (let st1 = cache_add key st;
          st2 =
            (if is_object val then
               (if get_prop val ''ValueType'' = JUndef then collectStringsInOrder val st1
                else if get_prop val ''ValueType'' = JNum CSTRING then
                  (case get_prop val ''Value'' of JStr s \<Rightarrow> cache_add s st1 | _ \<Rightarrow> st1)
                else st1)
             else (case val of JStr s \<Rightarrow> cache_add s st1 | _ \<Rightarrow> st1))
      in collect_props ps st2)"

definition writeStringsCacheInOrder :: "platform \<Rightarrow> byte list \<Rightarrow> string list \<Rightarrow> byte list" where
  "writeStringsCacheInOrder P w order = foldl (writeString P) (writeInt w (int (length order))) order"

text \<open>\<open>_writeCachedString\<close>; \<open>TextEncoder.encode(undefined)\<close> is the encoding of the
  empty string.\<close>

definition writeCachedString :: "platform \<Rightarrow> byte list \<Rightarrow> (string \<times> nat) list \<Rightarrow> string option \<Rightarrow> error + byte list" where
  "writeCachedString P w cache s =
     (if cache = [] then Inr (writeString P w (case s of None \<Rightarrow> [] | Some t \<Rightarrow> t))
      else (case map_of cache (to_key s) of
              Some i \<Rightarrow> Inr (writeInt w (int i))
            | None \<Rightarrow> Inl (CacheMiss s)))"

subsection \<open>Tagged values\<close>

definition is_hex :: "char \<Rightarrow> bool" where
  "is_hex c = (c \<in> set ''0123456789abcdefABCDEF'')"

definition hex_val :: "char \<Rightarrow> nat" where
  "hex_val c =
     (let n = (of_char c :: nat)
      in if n \<le> 57 then n - 48 else if n \<le> 70 then n - 55 else n - 87)"

fun hex_pairs :: "string \<Rightarrow> byte list" where
  "hex_pairs (a # b # cs) = of_nat (16 * hex_val a + hex_val b) # hex_pairs cs"
| "hex_pairs cs = []"

text \<open>\<open>_hexToBytes\<close>: the characters that are not hexadecimal digits are removed, and an
  odd digit at the end is left out (the array has \<open>clean.length / 2\<close> elements, rounded
  down).\<close>

definition hexToBytes :: "string \<Rightarrow> byte list" where
  "hexToBytes hex = hex_pairs (filter is_hex hex)"

definition shortsToBytes :: "int list \<Rightarrow> byte list" where
  "shortsToBytes shorts = concat (map (\<lambda>n. to_le16 (word_of_int n)) shorts)"

definition num_list :: "jsval \<Rightarrow> int list option" where
  "num_list v =
     (case v of
        JArr xs \<Rightarrow> (if list_all (\<lambda>x. case x of JNum n \<Rightarrow> True | _ \<Rightarrow> False) xs
                     then Some (map (\<lambda>x. case x of JNum n \<Rightarrow> n | _ \<Rightarrow> 0) xs) else None)
      | _ \<Rightarrow> None)"

text \<open>The payload that \<open>_writeMap\<close> writes after the type code \<open>b\<close> of a tagged value.
  The embedding covers the values that \<open>_readMap\<close> gives a tagged value.\<close>

definition write_tagged_payload :: "platform \<Rightarrow> byte list \<Rightarrow> int \<Rightarrow> jsval \<Rightarrow> error + byte list" where
  "write_tagged_payload P w b v =
     (if b = CSTRING then (case v of JStr s \<Rightarrow> Inr (writeString P w s) | _ \<Rightarrow> Inl NotModelled)
      else if b = CFLOAT then (case v of JFloat f \<Rightarrow> Inr (writeFloat w f) | _ \<Rightarrow> Inl NotModelled)
      else if b = CCOLOR then
        (case v of JStr hexColor \<Rightarrow> Inr (writeBytes w (hexToBytes (drop 2 hexColor)))
         | _ \<Rightarrow> Inl NotModelled)
      else if b = RECT32 then
        (case num_list v of Some shorts \<Rightarrow> Inr (writeBytes w (shortsToBytes shorts))
         | None \<Rightarrow> Inl NotModelled)
      else Inr w)"

definition skipped_in_bil :: "jsval \<Rightarrow> bool" where
  "skipped_in_bil val =
     (is_object val \<and> (get_prop val ''ValueType'' = JNum CNULL \<or> get_prop val ''ValueType'' = JNum RECT32))"

function write_value :: "platform \<Rightarrow> bool \<Rightarrow> (string \<times> nat) list \<Rightarrow> byte list \<Rightarrow> jsval \<Rightarrow> error + byte list"
  and writeMap :: "platform \<Rightarrow> bool \<Rightarrow> (string \<times> nat) list \<Rightarrow> byte list \<Rightarrow> (string \<times> jsval) list \<Rightarrow> error + byte list"
where
  "write_value P toBil cache w (JObj ps pr) =
     (let b = get_prop (JObj ps pr) ''ValueType''
      in if b \<noteq> JUndef then
           (case b of
              JNum t \<Rightarrow> write_tagged_payload P (writeByte w t) t (get_prop (JObj ps pr) ''Value'')
            | _ \<Rightarrow> Inl NotModelled)
         else
           rbind (writeMap P toBil cache (writeByte w CMAP) ps) (\<lambda>w1.
             Inr (writeByte (writeString P w1 []) ENDOFMAP)))"
| "write_value P toBil cache w (JArr xs) =
     rbind (writeMap P toBil cache (writeByte w CMAP) (zip (map show_nat [0..<length xs]) xs)) (\<lambda>w1.
       Inr (writeByte (writeString P w1 []) ENDOFMAP))"
| "write_value P toBil cache w (JNum n) = Inr (writeInt (writeByte w CINT) n)"
| "write_value P toBil cache w (JStr s) = writeCachedString P (writeByte w CACHED_STRING) cache (Some s)"
| "write_value P toBil cache w (JBool b) = Inr (writeByte (writeByte w BOOL) (if b then 1 else 0))"
| "write_value P toBil cache w JNull = Inr (writeByte w CNULL)"
| "write_value P toBil cache w JUndef = Inl UnsupportedValueType"
| "write_value P toBil cache w (JFloat f) = Inl NotModelled"
| "writeMap P toBil cache w [] = Inr w"
| "writeMap P toBil cache w ((k, val) # ps) =
     (if toBil \<and> skipped_in_bil val then writeMap P toBil cache w ps
      else
        rbind (writeCachedString P w cache (Some k)) (\<lambda>w1.
        rbind (write_value P toBil cache w1 val) (\<lambda>w2.
          writeMap P toBil cache w2 ps)))"
  by pat_completeness auto
termination
proof (relation "measure (\<lambda>x. case x of
           Inl (P, toBil, cache, w, v) \<Rightarrow> size v
         | Inr (P, toBil, cache, w, ps) \<Rightarrow> size_list (\<lambda>p. size (snd p)) ps)", goal_cases)
  case 1
  show ?case by simp
next
  case (2 P toBil cache w ps pr x)
  have "size_list (\<lambda>p. size (snd p)) ps \<le> size_list (size_prod (\<lambda>x. 0) size) ps"
    by (induction ps) auto
  then show ?case by simp
next
  case (3 P toBil cache w xs)
  have "size_list (\<lambda>p. size (snd p)) (zip ks xs) \<le> size_list size xs" for ks :: "string list"
  proof (induction xs arbitrary: ks)
    case Nil
    show ?case by simp
  next
    case (Cons x xs)
    show ?case using Cons [of "tl ks"] by (cases ks) auto
  qed
  from this [of "map show_nat [0..<length xs]"] show ?case by simp
qed auto


subsection \<open>The script block\<close>

text \<open>The \<open>while (true)\<close> loop of \<open>_writeBinaryString\<close>: \<open>len & 0x7f\<close>, then
  \<open>len >>>= 7\<close> on the unsigned 32-bit value.\<close>

function write_length :: "byte list \<Rightarrow> nat \<Rightarrow> byte list" where
  "write_length w len =
     (let b = len mod 128; len1 = (len mod 4294967296) div 128
      in if len1 \<noteq> 0 then write_length (writeByte w (int b + 128)) len1 else writeByte w (int b))"
  by pat_completeness auto
termination
proof (relation "measure (\<lambda>(w, len). len)", goal_cases)
  case 1
  show ?case by simp
next
  case (2 w len b len1)
  have a: "len mod 4294967296 div 128 \<le> len div 128"
    by (rule div_le_mono) simp
  have "0 < len"
    using 2 by (cases "len = 0") simp_all
  then have b: "len div 128 < len"
    by simp
  from a b have "len mod 4294967296 div 128 < len"
    by (rule le_less_trans)
  then show ?case using 2 by simp
qed

text \<open>The length written is \<open>text.length\<close>, the bytes are those of the UTF-8 encoding.\<close>

definition writeBinaryString :: "platform \<Rightarrow> byte list \<Rightarrow> string \<Rightarrow> byte list" where
  "writeBinaryString P w s = writeBytes (write_length w (length s)) (utf8_encode P s)"

text \<open>\<open>scripts[i] || ""\<close>\<close>

definition script_at :: "string list \<Rightarrow> nat \<Rightarrow> string" where
  "script_at scripts i = (if i < length scripts then scripts ! i else [])"

text \<open>\<open>n || d\<close> on an integer.\<close>

definition int_or :: "int \<Rightarrow> int \<Rightarrow> int" where
  "int_or n d = (if n = 0 then d else n)"

text \<open>\<open>v.Scale || 1\<close>; the float32 of 1 is \<open>0x3F800000\<close>.\<close>

definition scale_or_1 :: "f32 \<Rightarrow> f32" where
  "scale_or_1 s = (if f32_falsy s then 0x3F800000 else s)"

definition writeVariant :: "byte list \<Rightarrow> variant \<Rightarrow> byte list" where
  "writeVariant w v =
     writeInt (writeInt (writeFloat w (scale_or_1 (Scale v))) (int_or (Width v) 0)) (int_or (Height v) 0)"

text \<open>The loop of \<open>_writeScripts\<close> over the variants, with \<open>scriptIdx\<close>.\<close>

fun write_variant_scripts :: "platform \<Rightarrow> string list \<Rightarrow> byte list \<Rightarrow> nat \<Rightarrow> variant list \<Rightarrow> byte list" where
  "write_variant_scripts P scripts w scriptIdx [] = w"
| "write_variant_scripts P scripts w scriptIdx (v # vs) =
     write_variant_scripts P scripts
       (writeBinaryString P (writeVariant w v) (script_at scripts scriptIdx)) (Suc scriptIdx) vs"

definition script_stream :: "platform \<Rightarrow> string list \<Rightarrow> variant list \<Rightarrow> byte list" where
  "script_stream P scripts variants =
     write_variant_scripts P scripts
       (writeInt (writeBinaryString P [] (script_at scripts 0)) (int (length variants))) 1 variants"

definition writeScripts :: "platform \<Rightarrow> string list \<Rightarrow> variant list \<Rightarrow> byte list" where
  "writeScripts P scripts variants = gzip P (script_stream P scripts variants)"

subsection \<open>The layout header\<close>

text \<open>\<open>if (!(c.Name in cache)) cache[c.Name] = Object.keys(cache).length;\<close>\<close>

definition header_cache_add :: "(string \<times> nat) list \<Rightarrow> string option \<Rightarrow> (string \<times> nat) list" where
  "header_cache_add cache s =
     (if in_obj (to_key s) cache then cache else props_set (to_key s) (length cache) cache)"

definition header_cache_add3 :: "(string \<times> nat) list \<Rightarrow> control_header \<Rightarrow> (string \<times> nat) list" where
  "header_cache_add3 cache c =
     header_cache_add (header_cache_add (header_cache_add cache (Name c)) (JavaType c)) (DesignerType c)"

fun write_control_headers :: "platform \<Rightarrow> (string \<times> nat) list \<Rightarrow> byte list \<Rightarrow> control_header list \<Rightarrow> error + byte list" where
  "write_control_headers P cache w [] = Inr w"
| "write_control_headers P cache w (c # cs) =
     rbind (writeCachedString P w cache (Name c)) (\<lambda>w1.
     rbind (writeCachedString P w1 cache (JavaType c)) (\<lambda>w2.
     rbind (writeCachedString P w2 cache (DesignerType c)) (\<lambda>w3.
       write_control_headers P cache w3 cs)))"

text \<open>\<open>_writeLayoutHeader\<close>, for a header whose \<open>DesignerScript\<close> is an array, as
  \<open>_readLayoutHeader\<close> gives it.\<close>

definition writeLayoutHeader :: "platform \<Rightarrow> byte list \<Rightarrow> layout_header \<Rightarrow> variant list \<Rightarrow> error + byte list" where
  "writeLayoutHeader P w header variants =
     (let version = int_or (Version header) 4;
          w1 = writeInt w version;
          headerSizePosition = length w1;
          w2 = writeInt w1 0;
          w3 = (if version \<ge> 4 then writeInt w2 (int_or (GridSize header) 10) else w2);
          controlsHeaders = ControlsHeaders header;
          cache = foldl header_cache_add3 [] controlsHeaders
      in rbind (write_control_headers P cache (writeInt [] (int (length controlsHeaders))) controlsHeaders)
           (\<lambda>temp.
              let cacheKeys = map fst cache;
                  w4 = foldl (writeString P) (writeInt w3 (int (length cacheKeys))) cacheKeys;
                  w5 = writeBytes w4 temp;
                  files = Files header;
                  w6 = foldl (writeString P) (writeInt w5 (int (length files))) files;
                  scriptBytes = writeScripts P (DesignerScript header) variants;
                  w7 = writeBytes (writeInt w6 (int (length scriptBytes))) scriptBytes;
                  finalPosition = length w7;
                  actualHeaderSize = int finalPosition - int headerSizePosition - 4
              in Inr (updateInt w7 headerSizePosition actualHeaderSize)))"

subsection \<open>The document\<close>

definition writeAllLayout :: "platform \<Rightarrow> bool \<Rightarrow> byte list \<Rightarrow> variant list \<Rightarrow> jsval \<Rightarrow> error + byte list" where
  "writeAllLayout P toBil w variants data =
     (let (cache, cacheOrder) = collectStringsInOrder data ([], []);
          temp = foldl writeVariant (writeInt [] (int (length variants))) variants
      in rbind (writeMap P toBil cache temp (own_props data)) (\<lambda>temp1.
           let temp2 = writeByte (writeString P temp1 []) ENDOFMAP;
               w1 = writeStringsCacheInOrder P w cacheOrder;
               w2 = writeBytes w1 temp2
           in Inr (writeInt w2 0)))"

text \<open>\<open>convertJsonToBjlToBytes\<close> of a converter constructed with \<open>toBil\<close>.\<close>

definition convertJsonToBjlToBytes :: "platform \<Rightarrow> bool \<Rightarrow> design \<Rightarrow> error + byte list" where
  "convertJsonToBjlToBytes P toBil json =
     rbind (writeLayoutHeader P [] (LayoutHeader json) (Variants json)) (\<lambda>w1.
     rbind (writeAllLayout P toBil w1 (Variants json) (Data json)) (\<lambda>w2.
       Inr (writeByte (writeByte w2 (if FontAwesome json then 1 else 0))
              (if MaterialIcons json then 1 else 0))))"

section \<open>A platform for evaluation\<close>

text \<open>
  On ASCII text this platform decodes and encodes as \<open>TextDecoder\<close> and \<open>TextEncoder\<close>
  do. Its codec stands for gzip: the compressed form is the data after the two magic bytes
  of gzip, and data that does not start with them does not decompress.
\<close>

definition byte_char :: "byte \<Rightarrow> char" where
  "byte_char b =
     (let n = unat b
      in Char (odd n) (odd (n div 2)) (odd (n div 4)) (odd (n div 8)) (odd (n div 16))
           (odd (n div 32)) (odd (n div 64)) (odd (n div 128)))"

definition ascii_decode :: "byte list \<Rightarrow> string" where
  "ascii_decode bs = map byte_char bs"

definition ascii_encode :: "string \<Rightarrow> byte list" where
  "ascii_encode s = map (\<lambda>c. of_char c) s"

definition stored_gzip :: "byte list \<Rightarrow> byte list" where
  "stored_gzip bs = 31 # 139 # bs"

definition stored_ungzip :: "byte list \<Rightarrow> byte list option" where
  "stored_ungzip bs =
     (case bs of
        a # b # rest \<Rightarrow> (if a = 31 \<and> b = 139 then Some rest else None)
      | _ \<Rightarrow> None)"

definition ascii_platform :: platform where
  "ascii_platform =
     \<lparr>utf8_decode = ascii_decode, utf8_encode = ascii_encode, gzip = stored_gzip,
      ungzip = stored_ungzip\<rparr>"


section \<open>Notions for the statements\<close>

text \<open>A reader whose cursor stands after the bytes \<open>pre\<close> and before the bytes
  \<open>post\<close>.\<close>

definition cursor :: "byte list \<Rightarrow> byte list \<Rightarrow> reader" where
  "cursor pre post = \<lparr>buffer = pre @ post, offset = int (length pre)\<rparr>"

text \<open>An encoder cache and its order list agree: the index of a string in the cache is its
  position in the list.\<close>

definition cache_ok :: "(string \<times> nat) list \<times> string list \<Rightarrow> bool" where
  "cache_ok st =
     (distinct (snd st) \<and> length (fst st) = length (snd st)
      \<and> (\<forall>k i. map_of (fst st) k = Some i \<longleftrightarrow> (i < length (snd st) \<and> snd st ! i = k)))"

text \<open>
  The keys of an object in the order of \<open>Object.keys\<close>: no key twice, no own
  \<open>__proto__\<close>, and a key that is an array index stands after smaller array indices only.
\<close>

abbreviation (input) key_before :: "string \<Rightarrow> string \<Rightarrow> bool" where
  "key_before a b \<equiv> (if is_array_index b then is_array_index a \<and> digits_val a < digits_val b else True)"

definition canonical_keys :: "string list \<Rightarrow> bool" where
  "canonical_keys ks = (distinct ks \<and> ''__proto__'' \<notin> set ks \<and> sorted_wrt key_before ks)"

text \<open>
  Entries that \<open>_readMap\<close> decodes, one after the other: from the cursor \<open>r\<close> with the map
  \<open>acc\<close> built so far, the loop reaches the cursor \<open>r'\<close> with the map \<open>acc'\<close>.
\<close>

inductive valid_entries ::
  "platform \<Rightarrow> string list \<Rightarrow> (string \<times> jsval) list \<times> jsval option \<Rightarrow> reader
    \<Rightarrow> (string \<times> jsval) list \<times> jsval option \<Rightarrow> reader \<Rightarrow> bool"
  for P :: platform and cache :: "string list"
where
  no_entry: "valid_entries P cache acc r acc r"
| scalar_entry:
    "readCachedString P cache r = Inr (key, r1) \<Longrightarrow> readSignedByte r1 = Inr (t, r2) \<Longrightarrow>
     t \<noteq> ENDOFMAP \<Longrightarrow> t \<noteq> CMAP \<Longrightarrow> read_scalar P cache t r2 = Some (Inr (v, r3)) \<Longrightarrow>
     valid_entries P cache (obj_assign (to_key key) v acc) r3 acc' r' \<Longrightarrow>
     valid_entries P cache acc r acc' r'"
| map_entry:
    "readCachedString P cache r = Inr (key, r1) \<Longrightarrow> readSignedByte r1 = Inr (CMAP, r2) \<Longrightarrow>
     readMap P n cache ([], None) r2 = Some (Inr (v, r3)) \<Longrightarrow>
     valid_entries P cache (obj_assign (to_key key) v acc) r3 acc' r' \<Longrightarrow>
     valid_entries P cache acc r acc' r'"

subsection \<open>Documents that the encoder and the decoder carry through\<close>

definition int32 :: "int \<Rightarrow> bool" where
  "int32 n = (- 2147483648 \<le> n \<and> n < 2147483648)"

definition int16 :: "int \<Rightarrow> bool" where
  "int16 n = (- 32768 \<le> n \<and> n < 32768)"

text \<open>A string that the platform encodes and decodes back, in fewer than \<open>2^31\<close> bytes.\<close>

definition string_ok :: "platform \<Rightarrow> string \<Rightarrow> bool" where
  "string_ok P s = (utf8_decode P (utf8_encode P s) = s \<and> length (utf8_encode P s) < 2147483648)"

text \<open>A string that goes through a cache: \<open>key in cache\<close> must not hold for it before it
  is added.\<close>

definition cached_ok :: "platform \<Rightarrow> string \<Rightarrow> bool" where
  "cached_ok P s = (string_ok P s \<and> s \<notin> set object_prototype_keys)"

definition float_ok :: "jsval \<Rightarrow> bool" where
  "float_ok x = (case x of JFloat f \<Rightarrow> True | _ \<Rightarrow> False)"

definition ustring_ok :: "platform \<Rightarrow> jsval \<Rightarrow> bool" where
  "ustring_ok P x = (case x of JStr s \<Rightarrow> string_ok P s | _ \<Rightarrow> False)"

definition color_ok :: "jsval \<Rightarrow> bool" where
  "color_ok x =
     (case x of
        JStr h \<Rightarrow> h = ''0x'' @ hexFromBytes (hexToBytes (drop 2 h)) \<and> length (hexToBytes (drop 2 h)) = 4
      | _ \<Rightarrow> False)"

definition rect_ok :: "jsval \<Rightarrow> bool" where
  "rect_ok x = (case num_list x of Some ns \<Rightarrow> length ns = 4 \<and> list_all int16 ns | None \<Rightarrow> False)"

text \<open>The tagged values as \<open>_readMap\<close> builds them.\<close>

definition wf_tagged :: "platform \<Rightarrow> jsval \<Rightarrow> bool" where
  "wf_tagged P v =
     (let x = get_prop v ''Value''
      in v = tagged_null \<or> (v = tagged CFLOAT x \<and> float_ok x) \<or> (v = tagged CSTRING x \<and> ustring_ok P x)
         \<or> (v = tagged CCOLOR x \<and> color_ok x) \<or> (v = tagged RECT32 x \<and> rect_ok x))"

text \<open>
  The values of a map: 32-bit integers, strings, booleans, tagged values, and nested maps
  with the default prototype, without a key \<open>ValueType\<close> and with their keys in the order of
  \<open>Object.keys\<close>.
\<close>

fun wf_value :: "platform \<Rightarrow> jsval \<Rightarrow> bool"
  and wf_props :: "platform \<Rightarrow> (string \<times> jsval) list \<Rightarrow> bool"
where
  "wf_value P (JNum n) = int32 n"
| "wf_value P (JStr s) = cached_ok P s"
| "wf_value P (JBool b) = True"
| "wf_value P (JObj ps pr) =
     (wf_tagged P (JObj ps pr)
      \<or> (pr = None \<and> map_of ps ''ValueType'' = None \<and> canonical_keys (map fst ps) \<and> wf_props P ps))"
| "wf_value P JUndef = False"
| "wf_value P JNull = False"
| "wf_value P (JFloat f) = False"
| "wf_value P (JArr xs) = False"
| "wf_props P [] = True"
| "wf_props P ((k, v) # ps) = (cached_ok P k \<and> wf_value P v \<and> wf_props P ps)"

definition wf_body :: "platform \<Rightarrow> jsval \<Rightarrow> bool" where
  "wf_body P data =
     (case data of
        JObj ps pr \<Rightarrow>
          pr = None \<and> canonical_keys (map fst ps) \<and> wf_props P ps
          \<and> length (snd (collectStringsInOrder data ([], []))) < 2147483648
      | _ \<Rightarrow> False)"

definition name_ok :: "platform \<Rightarrow> string option \<Rightarrow> bool" where
  "name_ok P s = (case s of Some n \<Rightarrow> cached_ok P n \<and> \<not> is_array_index n | None \<Rightarrow> False)"

definition control_ok :: "platform \<Rightarrow> control_header \<Rightarrow> bool" where
  "control_ok P c = (name_ok P (Name c) \<and> name_ok P (JavaType c) \<and> name_ok P (DesignerType c))"

text \<open>A script whose UTF-8 form has as many bytes as the string has characters.\<close>

definition script_ok :: "platform \<Rightarrow> string \<Rightarrow> bool" where
  "script_ok P s =
     (utf8_decode P (utf8_encode P s) = s \<and> length (utf8_encode P s) = length s
      \<and> length s < 2147483648)"

definition wf_header :: "platform \<Rightarrow> layout_header \<Rightarrow> variant list \<Rightarrow> bool" where
  "wf_header P h variants =
     (3 \<le> Version h \<and> int32 (Version h)
      \<and> (if 4 \<le> Version h then GridSize h \<noteq> 0 \<and> int32 (GridSize h) else GridSize h = 10)
      \<and> list_all (control_ok P) (ControlsHeaders h) \<and> length (ControlsHeaders h) < 2147483648
      \<and> length (foldl header_cache_add3 [] (ControlsHeaders h)) < 2147483648
      \<and> list_all (string_ok P) (Files h) \<and> length (Files h) < 2147483648
      \<and> length (DesignerScript h) = Suc (length variants)
      \<and> list_all (script_ok P) (DesignerScript h)
      \<and> ungzip P (writeScripts P (DesignerScript h) variants)
          = Some (script_stream P (DesignerScript h) variants)
      \<and> length (writeScripts P (DesignerScript h) variants) < 2147483648)"

definition variant_ok :: "variant \<Rightarrow> bool" where
  "variant_ok v = (\<not> f32_falsy (Scale v) \<and> int32 (Width v) \<and> int32 (Height v))"

text \<open>The conditions on a document under which encoding and decoding give it back. The
  platform encodes the empty string as no bytes.\<close>

definition wf_design :: "platform \<Rightarrow> design \<Rightarrow> bool" where
  "wf_design P d =
     (utf8_encode P [] = [] \<and> wf_header P (LayoutHeader d) (Variants d)
      \<and> list_all variant_ok (Variants d) \<and> length (Variants d) < 2147483648
      \<and> wf_body P (Data d))"

text \<open>
  The map that the reduced mode leaves: without the entries whose value is tagged Null or
  Rect, at every level. An array is written as the map of its indices, so in the reduced
  mode it is left as that map, without the same entries. With the mode off every value is
  left as it is.
\<close>

function value_in_mode :: "bool \<Rightarrow> jsval \<Rightarrow> jsval"
  and props_in_mode :: "bool \<Rightarrow> (string \<times> jsval) list \<Rightarrow> (string \<times> jsval) list"
where
  "value_in_mode toBil (JObj ps pr) =
     (if get_prop (JObj ps pr) ''ValueType'' = JUndef then JObj (props_in_mode toBil ps) pr
      else JObj ps pr)"
| "value_in_mode toBil (JArr xs) =
     (if toBil then JObj (props_in_mode toBil (zip (map show_nat [0..<length xs]) xs)) None
      else JArr xs)"
| "value_in_mode toBil JUndef = JUndef"
| "value_in_mode toBil JNull = JNull"
| "value_in_mode toBil (JBool b) = JBool b"
| "value_in_mode toBil (JNum n) = JNum n"
| "value_in_mode toBil (JFloat f) = JFloat f"
| "value_in_mode toBil (JStr s) = JStr s"
| "props_in_mode toBil [] = []"
| "props_in_mode toBil ((k, v) # ps) =
     (if toBil \<and> skipped_in_bil v then props_in_mode toBil ps
      else (k, value_in_mode toBil v) # props_in_mode toBil ps)"
  by pat_completeness auto
termination
proof (relation "measure (\<lambda>x. case x of
           Inl (toBil, v) \<Rightarrow> size v
         | Inr (toBil, ps) \<Rightarrow> size_list (\<lambda>p. size (snd p)) ps)", goal_cases)
  case 1
  show ?case by simp
next
  case (2 toBil ps pr)
  have "size_list (\<lambda>p. size (snd p)) ps \<le> size_list (size_prod (\<lambda>x. 0) size) ps"
    by (induction ps) auto
  then show ?case by simp
next
  case (3 toBil xs)
  have "size_list (\<lambda>p. size (snd p)) (zip ks xs) \<le> size_list size xs" for ks :: "string list"
  proof (induction xs arbitrary: ks)
    case Nil
    show ?case by simp
  next
    case (Cons x xs)
    show ?case using Cons [of "tl ks"] by (cases ks) auto
  qed
  from this [of "map show_nat [0..<length xs]"] show ?case by simp
qed auto

definition body_in_mode :: "bool \<Rightarrow> jsval \<Rightarrow> jsval" where
  "body_in_mode toBil data =
     (case data of JObj ps pr \<Rightarrow> JObj (props_in_mode toBil ps) pr | _ \<Rightarrow> data)"

text \<open>Fuel that is enough for \<open>_readMap\<close> on the wire form of a map: one unit for each
  entry and for the end of each map.\<close>

fun value_fuel :: "jsval \<Rightarrow> nat"
  and props_fuel :: "(string \<times> jsval) list \<Rightarrow> nat"
where
  "value_fuel (JObj ps pr) = Suc (props_fuel ps)"
| "value_fuel JUndef = 0"
| "value_fuel JNull = 0"
| "value_fuel (JBool b) = 0"
| "value_fuel (JNum n) = 0"
| "value_fuel (JFloat f) = 0"
| "value_fuel (JStr s) = 0"
| "value_fuel (JArr xs) = 0"
| "props_fuel [] = 0"
| "props_fuel ((k, v) # ps) = Suc (value_fuel v + props_fuel ps)"

definition body_fuel :: "jsval \<Rightarrow> nat" where
  "body_fuel data = Suc (props_fuel (own_props data))"

subsection \<open>Wire forms\<close>

definition int_bytes :: "int \<Rightarrow> byte list" where
  "int_bytes n = to_le32 (word_of_int n)"

definition string_bytes :: "platform \<Rightarrow> string \<Rightarrow> byte list" where
  "string_bytes P s = int_bytes (int (length (utf8_encode P s))) @ utf8_encode P s"

definition variant_bytes :: "variant \<Rightarrow> byte list" where
  "variant_bytes v = to_le32 (scale_or_1 (Scale v)) @ int_bytes (int_or (Width v) 0) @ int_bytes (int_or (Height v) 0)"

text \<open>The strings of a map that \<open>_writeMap\<close> writes as cache references: the keys and
  the plain string values, at every level.\<close>

fun value_strings :: "jsval \<Rightarrow> string list"
  and props_strings :: "(string \<times> jsval) list \<Rightarrow> string list"
where
  "value_strings (JObj ps pr) =
     (if get_prop (JObj ps pr) ''ValueType'' = JUndef then props_strings ps else [])"
| "value_strings (JStr s) = [s]"
| "value_strings JUndef = []"
| "value_strings JNull = []"
| "value_strings (JBool b) = []"
| "value_strings (JNum n) = []"
| "value_strings (JFloat f) = []"
| "value_strings (JArr xs) = []"
| "props_strings [] = []"
| "props_strings ((k, v) # ps) = k # value_strings v @ props_strings ps"

text \<open>The bytes that \<open>_writeMap\<close> appends for a value and for the entries of a map, when
  it does not fail.\<close>

definition value_bytes :: "platform \<Rightarrow> bool \<Rightarrow> (string \<times> nat) list \<Rightarrow> jsval \<Rightarrow> byte list" where
  "value_bytes P toBil cache v = (case write_value P toBil cache [] v of Inr b \<Rightarrow> b | Inl e \<Rightarrow> [])"

definition map_bytes :: "platform \<Rightarrow> bool \<Rightarrow> (string \<times> nat) list \<Rightarrow> (string \<times> jsval) list \<Rightarrow> byte list" where
  "map_bytes P toBil cache ps = (case writeMap P toBil cache [] ps of Inr b \<Rightarrow> b | Inl e \<Rightarrow> [])"

text \<open>A cache reference to a string: its index in the cache, as \<open>writeInt\<close> writes it.\<close>

definition ref_bytes :: "(string \<times> nat) list \<Rightarrow> string \<Rightarrow> byte list" where
  "ref_bytes cache s = int_bytes (int (the (map_of cache s)))"

text \<open>The three cache references of a control header.\<close>

definition control_bytes :: "(string \<times> nat) list \<Rightarrow> control_header \<Rightarrow> byte list" where
  "control_bytes cache c =
     ref_bytes cache (to_key (Name c)) @ ref_bytes cache (to_key (JavaType c))
     @ ref_bytes cache (to_key (DesignerType c))"

text \<open>The bytes of the layout header after the version and the header length, for a header
  that \<open>_writeLayoutHeader\<close> writes without replacing a field by its default.\<close>

definition header_tail :: "platform \<Rightarrow> layout_header \<Rightarrow> variant list \<Rightarrow> byte list" where
  "header_tail P h vs =
     (let cache = foldl header_cache_add3 [] (ControlsHeaders h);
          scriptBytes = writeScripts P (DesignerScript h) vs
      in (if 4 \<le> Version h then int_bytes (GridSize h) else [])
         @ (int_bytes (int (length cache)) @ concat (map (string_bytes P) (map fst cache)))
         @ (int_bytes (int (length (ControlsHeaders h)))
            @ concat (map (control_bytes cache) (ControlsHeaders h)))
         @ (int_bytes (int (length (Files h))) @ concat (map (string_bytes P) (Files h)))
         @ (int_bytes (int (length scriptBytes)) @ scriptBytes))"

text \<open>The bytes that \<open>_writeAllLayout\<close> appends: the string cache, the variants, the
  entries of the body map with its end marker, and the padding.\<close>

definition body_bytes :: "platform \<Rightarrow> bool \<Rightarrow> variant list \<Rightarrow> jsval \<Rightarrow> byte list" where
  "body_bytes P toBil vs data =
     (let (cache, order) = collectStringsInOrder data ([], [])
      in (int_bytes (int (length order)) @ concat (map (string_bytes P) order))
         @ (int_bytes (int (length vs)) @ concat (map variant_bytes vs))
         @ (map_bytes P toBil cache (own_props data) @ string_bytes P [] @ [4])
         @ int_bytes 0)"


subsection \<open>A document for evaluation\<close>

text \<open>A document with a control header, a file, a variant with its script, and a body with
  a number, a Null, a Rect and a nested map.\<close>

definition example_design :: design where
  "example_design =
     \<lparr>LayoutHeader =
        \<lparr>Version = 4, GridSize = 8,
         ControlsHeaders = [\<lparr>Name = Some ''b1'', JavaType = Some ''B'', DesignerType = Some ''B''\<rparr>],
         Files = [''f''], DesignerScript = [''g'', ''v'']\<rparr>,
      Variants = [\<lparr>Scale = 0x3F800000, Width = 320, Height = 480\<rparr>],
      Data = JObj [(''a'', JNum 1), (''n'', tagged_null),
                   (''r'', tagged RECT32 (JArr [JNum 1, JNum 2, JNum 3, JNum 4])),
                   (''m'', JObj [(''z'', tagged_null), (''k'', JStr ''x'')] None)] None,
      FontAwesome = True, MaterialIcons = False\<rparr>"


section \<open>Properties\<close>

subsection \<open>Basic facts\<close>

lemma rbind_simps [simp]: "rbind (Inl e) f = Inl e" "rbind (Inr x) f = f x"
  by (simp_all add: rbind_def)

lemma fbind_simps [simp]:
  "fbind None f = None" "fbind (Some (Inl e)) f = Some (Inl e)" "fbind (Some (Inr x)) f = f x"
  by (simp_all add: fbind_def)

lemma readBytes_at:
  "readBytes (int (length bs)) \<lparr>buffer = pre @ bs @ post, offset = int (length pre)\<rparr>
     = (bs, \<lparr>buffer = pre @ bs @ post, offset = int (length pre) + int (length bs)\<rparr>)"
  by (simp add: readBytes_def js_slice_def Let_def min_def)

subsection \<open>The byte cursor at the end of the buffer\<close>

text \<open>
  C3, as stated, fails for \<open>readBytes\<close>: asked for four bytes of a buffer of two, it
  returns the two bytes and moves the cursor by four.
\<close>

theorem readBytes_past_end_counterexample:
  "readBytes 4 \<lparr>buffer = [1, 2], offset = 0\<rparr> = ([1, 2], \<lparr>buffer = [1, 2], offset = 4\<rparr>)"
  by (simp add: readBytes_def js_slice_def)

text \<open>
  C3, amended: when fewer than \<open>n\<close> bytes remain, the reads through the DataView
  (\<open>readByte\<close> and \<open>readSignedByte\<close> for \<open>n = 1\<close>, \<open>readInt\<close> and \<open>readFloat\<close> for
  \<open>n = 4\<close>) fail with OutOfBounds; \<open>readBytes\<close> of \<open>n\<close> bytes does not fail: it returns
  the bytes that remain and advances the cursor by \<open>n\<close>.
\<close>

theorem read_past_end:
  assumes "int (length (buffer r)) - offset r < n"
  shows "(n = 1 \<longrightarrow> readByte r = Inl OutOfBounds \<and> readSignedByte r = Inl OutOfBounds)
       \<and> (n = 4 \<longrightarrow> readInt r = Inl OutOfBounds \<and> readFloat r = Inl OutOfBounds)
       \<and> (0 \<le> offset r \<longrightarrow>
            readBytes n r = (drop (nat (offset r)) (buffer r), r\<lparr>offset := offset r + n\<rparr>))"
  using assms
  by (auto simp add: readByte_def readSignedByte_def readInt_def readFloat_def in_view_def
        readBytes_def js_slice_def Let_def min_def max_def)

theorem read_past_end_witness:
  "readByte \<lparr>buffer = [7], offset = 1\<rparr> = Inl OutOfBounds
   \<and> readSignedByte \<lparr>buffer = [7], offset = 1\<rparr> = Inl OutOfBounds
   \<and> readInt \<lparr>buffer = [1, 2, 3], offset = 0\<rparr> = Inl OutOfBounds
   \<and> readFloat \<lparr>buffer = [1, 2, 3], offset = 0\<rparr> = Inl OutOfBounds
   \<and> readBytes 4 \<lparr>buffer = [1, 2, 3], offset = 1\<rparr> = ([2, 3], \<lparr>buffer = [1, 2, 3], offset = 5\<rparr>)"
  using read_past_end [of "\<lparr>buffer = [7], offset = 1\<rparr>" 1]
    read_past_end [of "\<lparr>buffer = [1, 2, 3], offset = 0\<rparr>" 4]
    read_past_end [of "\<lparr>buffer = [1, 2, 3], offset = 1\<rparr>" 4]
  by simp

subsection \<open>The version gate\<close>

text \<open>
  C2: when the first four bytes of the buffer are the little-endian form of an integer
  below 3, \<open>convertBjlToJsonFromBytes\<close> fails with UnsupportedVersion, whatever fuel and
  whatever bytes follow; the header reader has returned with the cursor at offset 4.
\<close>

theorem version_gate:
  assumes "sint (le32 a b c d) < 3"
  shows "convertBjlToJsonFromBytes P fuel (a # b # c # d # rest) = Some (Inl UnsupportedVersion)
       \<and> readLayoutHeader P \<lparr>buffer = a # b # c # d # rest, offset = 0\<rparr>
           = Inr (\<lparr>Version = sint (le32 a b c d), GridSize = 10, ControlsHeaders = [], Files = [],
                    DesignerScript = []\<rparr>,
                  \<lparr>buffer = a # b # c # d # rest, offset = 4\<rparr>)"
proof -
  have hdr: "readLayoutHeader P \<lparr>buffer = a # b # c # d # rest, offset = 0\<rparr>
           = Inr (\<lparr>Version = sint (le32 a b c d), GridSize = 10, ControlsHeaders = [], Files = [],
                    DesignerScript = []\<rparr>,
                  \<lparr>buffer = a # b # c # d # rest, offset = 4\<rparr>)"
    using assms by (simp add: readLayoutHeader_def readInt_def in_view_def byte_at_def)
  show ?thesis
    using assms by (simp add: convertBjlToJsonFromBytes_def hdr)
qed

theorem version_gate_witness:
  "sint (le32 2 0 0 0) < 3
   \<and> convertBjlToJsonFromBytes ascii_platform 0 [2, 0, 0, 0, 9, 9] = Some (Inl UnsupportedVersion)
   \<and> readLayoutHeader ascii_platform \<lparr>buffer = [2, 0, 0, 0, 9, 9], offset = 0\<rparr>
           = Inr (\<lparr>Version = 2, GridSize = 10, ControlsHeaders = [], Files = [],
                    DesignerScript = []\<rparr>,
                  \<lparr>buffer = [2, 0, 0, 0, 9, 9], offset = 4\<rparr>)"
proof -
  have h: "sint (le32 2 0 0 0) < 3"
    by (simp add: le32_def)
  have v: "sint (le32 2 0 0 0) = 2"
    by (simp add: le32_def)
  show ?thesis
    using h version_gate [OF h, of ascii_platform 0 "[9, 9]"] by (simp add: v)
qed

subsection \<open>Colours\<close>

lemma hex_digit_inverse:
  assumes "n < 16"
  shows "hex_val (hex_digit n) = n" and "is_hex (hex_digit n)"
proof -
  from assms have "n \<in> {0, 1, 2, 3, 4, 5, 6, 7, 8, 9, 10, 11, 12, 13, 14, 15}"
    by simp arith
  then show "hex_val (hex_digit n) = n" and "is_hex (hex_digit n)"
    by (auto simp add: hex_digit_def hex_val_def is_hex_def)
qed

lemma nibble_bounds: "unat (b :: byte) div 16 < 16" "unat b mod 16 < 16"
proof -
  have "unat b < 2 ^ LENGTH(8)" by (rule unsigned_less)
  then have "unat b < 256" by simp
  then show "unat b div 16 < 16" by simp
  show "unat b mod 16 < 16" by simp
qed

lemma hexToBytes_hexFromBytes: "hexToBytes (hexFromBytes d) = d"
proof (induction d)
  case Nil
  show ?case by (simp add: hexToBytes_def hexFromBytes_def)
next
  case (Cons b d)
  then show ?case
    by (simp add: hexToBytes_def hexFromBytes_def hex_digit_inverse nibble_bounds)
qed

lemma write_value_color: "write_value P toBil ecache w (color_value bs) = Inr (w @ 6 # bs)"
  using hexToBytes_hexFromBytes [of bs]
  by (simp add: color_value_def tagged_def write_tagged_payload_def writeByte_def writeBytes_def)

text \<open>
  C9: the four bytes 1A 2B 3C 4D after the type code of a colour are read as the tagged
  value with the string \<open>0x1A2B3C4D\<close>, and that value is written as the type code and the
  same four bytes; for any four bytes, the value read from them is written back as the type
  code and the four bytes.
\<close>

theorem color_roundtrip:
  "read_scalar P cache CCOLOR \<lparr>buffer = [0x1A, 0x2B, 0x3C, 0x4D], offset = 0\<rparr>
     = Some (Inr (tagged CCOLOR (JStr ''0x1A2B3C4D''), \<lparr>buffer = [0x1A, 0x2B, 0x3C, 0x4D], offset = 4\<rparr>))
   \<and> write_value P toBil ecache w (tagged CCOLOR (JStr ''0x1A2B3C4D''))
     = Inr (w @ [6, 0x1A, 0x2B, 0x3C, 0x4D])
   \<and> read_scalar P cache CCOLOR \<lparr>buffer = pre @ [a, b, c, d] @ post, offset = int (length pre)\<rparr>
     = Some (Inr (color_value [a, b, c, d],
                  \<lparr>buffer = pre @ [a, b, c, d] @ post, offset = int (length pre) + 4\<rparr>))
   \<and> write_value P toBil ecache w (color_value [a, b, c, d]) = Inr (w @ [6, a, b, c, d])"
proof (intro conjI)
  show "read_scalar P cache CCOLOR \<lparr>buffer = [0x1A, 0x2B, 0x3C, 0x4D], offset = 0\<rparr>
     = Some (Inr (tagged CCOLOR (JStr ''0x1A2B3C4D''), \<lparr>buffer = [0x1A, 0x2B, 0x3C, 0x4D], offset = 4\<rparr>))"
    by (simp add: read_scalar_def readBytes_def js_slice_def color_value_def hexFromBytes_def hex_digit_def)
  have "color_value [0x1A, 0x2B, 0x3C, 0x4D] = tagged CCOLOR (JStr ''0x1A2B3C4D'')"
    by (simp add: color_value_def hexFromBytes_def hex_digit_def)
  with write_value_color [of P toBil ecache w "[0x1A, 0x2B, 0x3C, 0x4D]"]
  show "write_value P toBil ecache w (tagged CCOLOR (JStr ''0x1A2B3C4D'')) = Inr (w @ [6, 0x1A, 0x2B, 0x3C, 0x4D])"
    by simp
  show "read_scalar P cache CCOLOR \<lparr>buffer = pre @ [a, b, c, d] @ post, offset = int (length pre)\<rparr>
     = Some (Inr (color_value [a, b, c, d],
                  \<lparr>buffer = pre @ [a, b, c, d] @ post, offset = int (length pre) + 4\<rparr>))"
    using readBytes_at [of "[a, b, c, d]" pre post] by (simp add: read_scalar_def)
  show "write_value P toBil ecache w (color_value [a, b, c, d]) = Inr (w @ [6, a, b, c, d])"
    using write_value_color [of P toBil ecache w "[a, b, c, d]"] by simp
qed

theorem color_roundtrip_witness:
  "read_scalar ascii_platform [] CCOLOR \<lparr>buffer = [0x1A, 0x2B, 0x3C, 0x4D], offset = 0\<rparr>
     = Some (Inr (tagged CCOLOR (JStr ''0x1A2B3C4D''), \<lparr>buffer = [0x1A, 0x2B, 0x3C, 0x4D], offset = 4\<rparr>))
   \<and> write_value ascii_platform False [] [] (tagged CCOLOR (JStr ''0x1A2B3C4D''))
     = Inr [6, 0x1A, 0x2B, 0x3C, 0x4D]"
  using color_roundtrip [of ascii_platform "[]" False "[]" "[]" "[]" 0 0 0 0 "[]"] by simp

subsection \<open>Reading at a cursor\<close>

lemma cursor_start: "\<lparr>buffer = bs, offset = 0\<rparr> = cursor [] bs"
  by (simp add: cursor_def)

lemma readByte_cursor:
  "readByte (cursor pre (a # post)) = Inr (a, cursor (pre @ [a]) post)"
  "readByte (cursor pre []) = Inl OutOfBounds"
  by (simp_all add: cursor_def readByte_def in_view_def byte_at_def nth_append)

lemma readSignedByte_cursor:
  "readSignedByte (cursor pre (a # post)) = Inr (sint a, cursor (pre @ [a]) post)"
  "readSignedByte (cursor pre []) = Inl OutOfBounds"
  by (simp_all add: cursor_def readSignedByte_def in_view_def byte_at_def nth_append)

lemma readInt_cursor:
  "readInt (cursor pre (a # b # c # d # post))
     = Inr (sint (le32 a b c d), cursor (pre @ [a, b, c, d]) post)"
  by (simp add: cursor_def readInt_def in_view_def byte_at_def nth_append nat_add_distrib)

lemma readInt_cursor_short: "length post < 4 \<Longrightarrow> readInt (cursor pre post) = Inl OutOfBounds"
  by (simp add: cursor_def readInt_def in_view_def)

lemma readFloat_cursor:
  "readFloat (cursor pre (a # b # c # d # post))
     = Inr (le32 a b c d, cursor (pre @ [a, b, c, d]) post)"
  by (simp add: cursor_def readFloat_def in_view_def byte_at_def nth_append nat_add_distrib)

lemma readFloat_cursor_short: "length post < 4 \<Longrightarrow> readFloat (cursor pre post) = Inl OutOfBounds"
  by (simp add: cursor_def readFloat_def in_view_def)

lemma readBytes_cursor:
  "0 \<le> len \<Longrightarrow> nat len \<le> length post \<Longrightarrow>
   readBytes len (cursor pre post)
     = (take (nat len) post, cursor (pre @ take (nat len) post) (drop (nat len) post))"
  by (auto simp add: cursor_def readBytes_def js_slice_def Let_def min_def)

lemma skip_cursor:
  "(cursor pre (a # b # c # d # post))\<lparr>offset := offset (cursor pre (a # b # c # d # post)) + 4\<rparr>
     = cursor (pre @ [a, b, c, d]) post"
  by (simp add: cursor_def)

lemma rbind_weak_cong: "m = m' \<Longrightarrow> rbind m f = rbind m' f"
  by simp

lemma fbind_weak_cong: "m = m' \<Longrightarrow> fbind m f = fbind m' f"
  by simp

lemmas readMap_numeral = readMap.simps(2) [where n = "pred_numeral k", folded numeral_eq_Suc] for k

lemmas read_n_numeral = read_n.simps(2) [where n = "pred_numeral k", folded numeral_eq_Suc] for k

lemmas cursor_simps = cursor_start readByte_cursor readSignedByte_cursor readInt_cursor
  readInt_cursor_short readFloat_cursor readFloat_cursor_short readBytes_cursor skip_cursor
  readMap_numeral read_n_numeral le32_def le16_def

lemmas platform_defs = ascii_platform_def ascii_decode_def ascii_encode_def stored_gzip_def
  stored_ungzip_def byte_char_def

lemmas decode_defs = convertBjlToJsonFromBytes_def readLayoutHeader_def loadStringsCache_def
  readCachedString_def array_get_def readScripts_def try_read_scripts_def readString_def
  read_script_stream_def readBinaryString_def readVariantFromStream_def shl32_def
  read_control_header_def read_variant_def read_scalar_def obj_assign_def str_or_undef_def
  tagged_def tagged_null_def color_value_def hexFromBytes_def hex_digit_def
  shortsFromBytes8_def is_nan_def to_key_def props_set_def has_own_def
  is_array_index_def is_digit_def digits_val_def is_object_def

lemmas writer_defs = writeByte_def writeInt_def writeFloat_def writeBytes_def updateInt_def
  writeString_def to_le32_def to_le16_def

lemmas encode_defs = convertJsonToBjlToBytes_def writeLayoutHeader_def writeAllLayout_def
  writeScripts_def script_stream_def writeBinaryString_def script_at_def int_or_def
  scale_or_1_def f32_falsy_def is_nan_def writeVariant_def header_cache_add_def
  header_cache_add3_def writeStringsCacheInOrder_def writeCachedString_def cache_add_def
  in_obj_def has_own_def object_prototype_keys_def props_set_def is_array_index_def
  is_digit_def digits_val_def is_object_def to_key_def own_props_def skipped_in_bil_def
  write_tagged_payload_def tagged_def tagged_null_def

subsection \<open>The encoder cache\<close>

lemma map_of_props_update:
  "map_of ps k \<noteq> None \<Longrightarrow> map_of (props_update k v ps) = (map_of ps)(k \<mapsto> v)"
  by (induction ps) (auto simp add: fun_eq_iff)

lemma map_of_props_insert_index:
  "map_of ps k = None \<Longrightarrow> map_of (props_insert_index k v ps) k' = ((map_of ps)(k \<mapsto> v)) k'"
  by (induction ps) (auto split: if_splits)

lemma map_of_props_set: "map_of (props_set k v ps) = (map_of ps)(k \<mapsto> v)"
  by (auto simp add: props_set_def has_own_def map_of_props_update map_of_props_insert_index
      fun_eq_iff map_add_def split: option.splits)

lemma length_props_update: "length (props_update k v ps) = length ps"
  by (induction ps) auto

lemma length_props_insert_index: "length (props_insert_index k v ps) = Suc (length ps)"
  by (induction ps) auto

lemma length_props_set:
  "length (props_set k v ps) = (if has_own ps k then length ps else Suc (length ps))"
  by (simp add: props_set_def length_props_update length_props_insert_index)

lemma cache_ok_empty: "cache_ok ([], [])"
  by (simp add: cache_ok_def)

lemma cache_ok_dom: "cache_ok st \<Longrightarrow> has_own (fst st) k \<longleftrightarrow> k \<in> set (snd st)"
  unfolding cache_ok_def has_own_def
  by (metis in_set_conv_nth not_None_eq)

lemma cache_ok_add:
  assumes "cache_ok st"
  shows "cache_ok (cache_add k st)"
proof (cases "in_obj k (fst st)")
  case True
  then show ?thesis using assms by (simp add: cache_add_def)
next
  case False
  then have own: "\<not> has_own (fst st) k"
    by (simp add: in_obj_def)
  then have notin: "k \<notin> set (snd st)"
    using cache_ok_dom [OF assms] by simp
  from assms have d: "distinct (snd st)" and l: "length (fst st) = length (snd st)"
    and m: "\<And>k i. map_of (fst st) k = Some i \<longleftrightarrow> (i < length (snd st) \<and> snd st ! i = k)"
    by (simp_all add: cache_ok_def)
  have "map_of (props_set k (length (fst st)) (fst st)) k' = Some i
          \<longleftrightarrow> (i < length (snd st @ [k]) \<and> (snd st @ [k]) ! i = k')" for k' i
  proof (cases "k' = k")
    case True
    show ?thesis
      using notin l by (auto simp add: True map_of_props_set nth_append)
  next
    case False
    show ?thesis
      using notin l m [of k' i] False by (auto simp add: map_of_props_set nth_append)
  qed
  then show ?thesis
    using False d l notin own by (simp add: cache_add_def cache_ok_def length_props_set)
qed

lemma collect_cache_ok:
  "cache_ok st \<Longrightarrow> cache_ok (collectStringsInOrder v st)"
  "cache_ok st \<Longrightarrow> cache_ok (collect_items xs st)"
  "cache_ok st \<Longrightarrow> cache_ok (collect_props ps st)"
proof (induction v st and xs st and ps st rule: collectStringsInOrder_collect_items_collect_props.induct)
  case (12 key val ps st)
  show ?case
    using "12.prems" "12.IH"
    by (auto simp add: Let_def cache_ok_add split: jsval.splits)
qed simp_all

subsection \<open>The closed cache\<close>

text \<open>
  C7, as stated, fails: the key \<open>toString\<close> is not collected (\<open>key in cache\<close> holds for
  it on the empty cache), the cache stays empty, and an empty cache makes
  \<open>_writeCachedString\<close> write the string itself: the document is encoded without an error.
\<close>

theorem uncollected_string_written_counterexample:
  "collectStringsInOrder (JObj [(''toString'', JNum 1)] None) ([], []) = ([], [])
   \<and> writeCachedString ascii_platform [] [] (Some ''toString'')
       = Inr [8, 0, 0, 0, 116, 111, 83, 116, 114, 105, 110, 103]
   \<and> convertJsonToBjlToBytes ascii_platform False
       \<lparr>LayoutHeader = \<lparr>Version = 4, GridSize = 8, ControlsHeaders = [], Files = [],
          DesignerScript = []\<rparr>,
        Variants = [], Data = JObj [(''toString'', JNum 1)] None, FontAwesome = False,
        MaterialIcons = False\<rparr>
       = Inr [4, 0, 0, 0, 27, 0, 0, 0, 8, 0, 0, 0, 0, 0, 0, 0, 0, 0, 0, 0, 0, 0, 0,
              0, 7, 0, 0, 0, 31, 139, 0, 0, 0, 0, 0, 0, 0, 0, 0, 0, 0, 0, 0, 8, 0,
              0, 0, 116, 111, 83, 116, 114, 105, 110, 103, 1, 1, 0, 0, 0, 0, 0, 0,
              0, 4, 0, 0, 0, 0, 0, 0]"
  by (simp add: encode_defs writer_defs platform_defs)

text \<open>
  C7, amended: a string that the collection pass over the document did not collect has no
  index in the cache. Writing it as a cache reference fails with CacheMiss when the cache is
  not empty; when the cache is empty, the string itself is written (its length and its
  bytes) and there is no error.
\<close>

theorem cache_closure:
  assumes "collectStringsInOrder data ([], []) = (cache, order)" and "s \<notin> set order"
  shows "(cache \<noteq> [] \<longrightarrow> writeCachedString P w cache (Some s) = Inl (CacheMiss (Some s)))
       \<and> (cache = [] \<longrightarrow> writeCachedString P w cache (Some s) = Inr (writeString P w s))"
proof -
  have "cache_ok (cache, order)"
    using collect_cache_ok(1) [OF cache_ok_empty, of data] assms(1) by simp
  from cache_ok_dom [OF this, of s] assms(2) have "map_of cache s = None"
    by (simp add: has_own_def)
  then show ?thesis
    by (simp add: writeCachedString_def to_key_def)
qed

theorem cache_closure_witness:
  "collectStringsInOrder (JObj [(''a'', JNum 1)] None) ([], []) = ([(''a'', 0)], [''a''])
   \<and> writeCachedString ascii_platform [] [(''a'', 0)] (Some ''b'') = Inl (CacheMiss (Some ''b''))"
proof -
  have c: "collectStringsInOrder (JObj [(''a'', JNum 1)] None) ([], []) = ([(''a'', 0)], [''a''])"
    by (simp add: encode_defs)
  have n: "''b'' \<notin> set [''a'']"
    by simp
  show ?thesis
    using c cache_closure [OF c n, of ascii_platform "[]"] by simp
qed

subsection \<open>An undecodable script block\<close>

text \<open>
  C6, as stated, fails for a block that is absent altogether: \<open>_readScripts\<close> reads the
  length of the block before the \<open>try\<close>, so on a buffer that ends after the file count
  the read of the length fails, and the failure ends the decoding of the header and of the
  document.
\<close>

theorem script_block_absent_counterexample:
  "readLayoutHeader ascii_platform
     (cursor [] [4, 0, 0, 0, 0, 0, 0, 0, 8, 0, 0, 0, 0, 0, 0, 0, 0, 0, 0, 0, 0, 0, 0, 0])
     = Inl OutOfBounds
   \<and> (\<forall>fuel. convertBjlToJsonFromBytes ascii_platform fuel
         [4, 0, 0, 0, 0, 0, 0, 0, 8, 0, 0, 0, 0, 0, 0, 0, 0, 0, 0, 0, 0, 0, 0, 0]
       = Some (Inl OutOfBounds))"
  by (simp add: decode_defs cursor_simps cong: rbind_weak_cong fbind_weak_cong)

text \<open>
  C6, amended. Let the fields of the header before the script block be read. When the
  length of the block cannot be read, its error is the result of \<open>_readLayoutHeader\<close> and
  of \<open>convertBjlToJsonFromBytes\<close>. When the length is read and the body of the \<open>try\<close>
  fails on the bytes of the block (whatever they are: none, fewer than the length says, not
  a gzip stream, or a stream whose content does not parse; it fails exactly when the
  decompression fails or the decompressed stream does not parse), \<open>_readScripts\<close> returns the
  empty list, \<open>_readLayoutHeader\<close> returns the header with the empty script list and the
  cursor after the block, and, when the rest of the buffer decodes from there,
  \<open>convertBjlToJsonFromBytes\<close> returns the document with that header.
\<close>

theorem script_block_tolerance:
  assumes "readInt \<lparr>buffer = bytes, offset = 0\<rparr> = Inr (version, r1)" and "3 \<le> version"
    and "(if 4 \<le> version then readInt (r1\<lparr>offset := offset r1 + 4\<rparr>)
          else Inr (10, r1\<lparr>offset := offset r1 + 4\<rparr>)) = Inr (grid, r3)"
    and "loadStringsCache P r3 = Inr (cache, r4)"
    and "readInt r4 = Inr (cCount, r5)"
    and "read_n (nat cCount) (read_control_header P cache) r5 = Inr (controls, r6)"
    and "readInt r6 = Inr (fCount, r7)"
    and "read_n (nat fCount) (readString P) r7 = Inr (files, r8)"
  shows "(readInt r8 = Inl e \<longrightarrow>
            readLayoutHeader P \<lparr>buffer = bytes, offset = 0\<rparr> = Inl e
            \<and> convertBjlToJsonFromBytes P fuel bytes = Some (Inl e))
       \<and> (readInt r8 = Inr (len, r9) \<and> try_read_scripts P (fst (readBytes len r9)) = None \<longrightarrow>
            readScripts P r8 = Inr ([], snd (readBytes len r9))
            \<and> readLayoutHeader P \<lparr>buffer = bytes, offset = 0\<rparr>
                = Inr (\<lparr>Version = version, GridSize = grid, ControlsHeaders = controls,
                         Files = files, DesignerScript = []\<rparr>, snd (readBytes len r9))
            \<and> (loadStringsCache P (snd (readBytes len r9)) = Inr (strings, q1)
                 \<and> readInt q1 = Inr (variantCount, q2)
                 \<and> read_n (nat variantCount) read_variant q2 = Inr (variants, q3)
                 \<and> readMap P fuel strings ([], None) q3 = Some (Inr (data, q4))
                 \<and> readInt q4 = Inr (padding, q5)
                 \<and> readSignedByte q5 = Inr (fa, q6)
                 \<and> readSignedByte q6 = Inr (mi, q7) \<longrightarrow>
                 convertBjlToJsonFromBytes P fuel bytes
                   = Some (Inr \<lparr>LayoutHeader =
                                  \<lparr>Version = version, GridSize = grid, ControlsHeaders = controls,
                                   Files = files, DesignerScript = []\<rparr>,
                                Variants = variants, Data = data, FontAwesome = (fa = 1),
                                MaterialIcons = (mi = 1)\<rparr>)))
       \<and> (try_read_scripts P raw = None \<longleftrightarrow>
            ungzip P raw = None
            \<or> (\<exists>decompressed e'. ungzip P raw = Some decompressed
                  \<and> read_script_stream P \<lparr>buffer = decompressed, offset = 0\<rparr> = Inl e'))"
proof (intro conjI impI)
  show "try_read_scripts P raw = None \<longleftrightarrow>
            ungzip P raw = None
            \<or> (\<exists>decompressed e'. ungzip P raw = Some decompressed
                  \<and> read_script_stream P \<lparr>buffer = decompressed, offset = 0\<rparr> = Inl e')"
    by (auto simp add: try_read_scripts_def split: option.splits sum.splits)
next
  assume e: "readInt r8 = Inl e"
  then have s: "readScripts P r8 = Inl e"
    by (simp add: readScripts_def)
  show h: "readLayoutHeader P \<lparr>buffer = bytes, offset = 0\<rparr> = Inl e"
    using assms s by (simp add: readLayoutHeader_def Let_def)
  show "convertBjlToJsonFromBytes P fuel bytes = Some (Inl e)"
    by (simp add: convertBjlToJsonFromBytes_def h)
next
  assume a: "readInt r8 = Inr (len, r9) \<and> try_read_scripts P (fst (readBytes len r9)) = None"
  then show s: "readScripts P r8 = Inr ([], snd (readBytes len r9))"
    by (simp add: readScripts_def split_beta)
  show h: "readLayoutHeader P \<lparr>buffer = bytes, offset = 0\<rparr>
        = Inr (\<lparr>Version = version, GridSize = grid, ControlsHeaders = controls,
                 Files = files, DesignerScript = []\<rparr>, snd (readBytes len r9))"
    using assms s by (simp add: readLayoutHeader_def Let_def)
  assume "loadStringsCache P (snd (readBytes len r9)) = Inr (strings, q1)
                 \<and> readInt q1 = Inr (variantCount, q2)
                 \<and> read_n (nat variantCount) read_variant q2 = Inr (variants, q3)
                 \<and> readMap P fuel strings ([], None) q3 = Some (Inr (data, q4))
                 \<and> readInt q4 = Inr (padding, q5)
                 \<and> readSignedByte q5 = Inr (fa, q6)
                 \<and> readSignedByte q6 = Inr (mi, q7)"
  then show "convertBjlToJsonFromBytes P fuel bytes
                   = Some (Inr \<lparr>LayoutHeader =
                                  \<lparr>Version = version, GridSize = grid, ControlsHeaders = controls,
                                   Files = files, DesignerScript = []\<rparr>,
                                Variants = variants, Data = data, FontAwesome = (fa = 1),
                                MaterialIcons = (mi = 1)\<rparr>)"
    using assms(2) by (simp add: convertBjlToJsonFromBytes_def h)
qed

theorem script_block_tolerance_witness:
  "readLayoutHeader ascii_platform
     \<lparr>buffer = [4, 0, 0, 0, 0, 0, 0, 0, 8, 0, 0, 0, 0, 0, 0, 0, 0, 0, 0, 0, 0, 0, 0, 0,
                3, 0, 0, 0, 1, 2, 3,
                0, 0, 0, 0, 0, 0, 0, 0, 0, 0, 0, 0, 4, 0, 0, 0, 0, 1, 0], offset = 0\<rparr>
     = Inr (\<lparr>Version = 4, GridSize = 8, ControlsHeaders = [], Files = [], DesignerScript = []\<rparr>,
            cursor [4, 0, 0, 0, 0, 0, 0, 0, 8, 0, 0, 0, 0, 0, 0, 0, 0, 0, 0, 0, 0, 0, 0, 0,
                    3, 0, 0, 0, 1, 2, 3]
                   [0, 0, 0, 0, 0, 0, 0, 0, 0, 0, 0, 0, 4, 0, 0, 0, 0, 1, 0])
   \<and> convertBjlToJsonFromBytes ascii_platform 1
       [4, 0, 0, 0, 0, 0, 0, 0, 8, 0, 0, 0, 0, 0, 0, 0, 0, 0, 0, 0, 0, 0, 0, 0,
        3, 0, 0, 0, 1, 2, 3,
        0, 0, 0, 0, 0, 0, 0, 0, 0, 0, 0, 0, 4, 0, 0, 0, 0, 1, 0]
     = Some (Inr \<lparr>LayoutHeader =
                    \<lparr>Version = 4, GridSize = 8, ControlsHeaders = [], Files = [],
                     DesignerScript = []\<rparr>,
                  Variants = [], Data = JObj [] None, FontAwesome = True, MaterialIcons = False\<rparr>)"
proof -
  let ?b = "[4, 0, 0, 0, 0, 0, 0, 0, 8, 0, 0, 0, 0, 0, 0, 0, 0, 0, 0, 0, 0, 0, 0, 0,
             3, 0, 0, 0, 1, 2, 3,
             0, 0, 0, 0, 0, 0, 0, 0, 0, 0, 0, 0, 4, 0, 0, 0, 0, 1, 0] :: byte list"
  let ?at = "\<lambda>n. cursor (take n ?b) (drop n ?b)"
  have 1: "readInt \<lparr>buffer = ?b, offset = 0\<rparr> = Inr (4, ?at 4)"
    by (simp add: cursor_simps)
  have 2: "(3::int) \<le> 4"
    by simp
  have 3: "(if (4::int) \<le> 4 then readInt ((?at 4)\<lparr>offset := offset (?at 4) + 4\<rparr>)
            else Inr (10, (?at 4)\<lparr>offset := offset (?at 4) + 4\<rparr>)) = Inr (8, ?at 12)"
    by (simp add: cursor_simps)
  have 4: "loadStringsCache ascii_platform (?at 12) = Inr ([], ?at 16)"
    by (simp add: loadStringsCache_def cursor_simps)
  have 5: "readInt (?at 16) = Inr (0, ?at 20)"
    by (simp add: cursor_simps)
  have 6: "read_n (nat 0) (read_control_header ascii_platform []) (?at 20) = Inr ([], ?at 20)"
    by simp
  have 7: "readInt (?at 20) = Inr (0, ?at 24)"
    by (simp add: cursor_simps)
  have 8: "read_n (nat 0) (readString ascii_platform) (?at 24) = Inr ([], ?at 24)"
    by simp
  have 9: "readInt (?at 24) = Inr (3, ?at 28)"
    by (simp add: cursor_simps)
  have rb: "readBytes 3 (?at 28) = ([1, 2, 3], ?at 31)"
    by (simp add: cursor_simps)
  have 10: "try_read_scripts ascii_platform (fst (readBytes 3 (?at 28))) = None"
    by (simp only: rb fst_conv) (simp add: try_read_scripts_def platform_defs)
  have 11: "loadStringsCache ascii_platform (snd (readBytes 3 (?at 28))) = Inr ([], ?at 35)"
    by (simp only: rb snd_conv) (simp add: loadStringsCache_def cursor_simps)
  have 12: "readInt (?at 35) = Inr (0, ?at 39)"
    by (simp add: cursor_simps)
  have 13: "read_n (nat 0) read_variant (?at 39) = Inr ([], ?at 39)"
    by simp
  have 14: "readMap ascii_platform 1 [] ([], None) (?at 39) = Some (Inr (JObj [] None, ?at 44))"
    by (simp add: decode_defs platform_defs cursor_simps cong: rbind_weak_cong fbind_weak_cong)
  have 15: "readInt (?at 44) = Inr (0, ?at 48)"
    by (simp add: cursor_simps)
  have 16: "readSignedByte (?at 48) = Inr (1, ?at 49)"
    by (simp add: cursor_simps)
  have 17: "readSignedByte (?at 49) = Inr (0, ?at 50)"
    by (simp add: cursor_simps)
  note t = script_block_tolerance [OF 1 2 3 4 5 6 7 8, where len = 3 and ?r9.0 = "?at 28"
      and fuel = 1 and strings = "[]" and ?q1.0 = "?at 35" and variantCount = 0 and ?q2.0 = "?at 39"
      and variants = "[]" and ?q3.0 = "?at 39" and data = "JObj [] None" and ?q4.0 = "?at 44"
      and padding = 0 and ?q5.0 = "?at 48" and fa = 1 and ?q6.0 = "?at 49" and mi = 0
      and ?q7.0 = "?at 50"]
  from t 9 10 11 12 13 14 15 16 17 show ?thesis
    by (simp only: rb snd_conv simp_thms) simp
qed

subsection \<open>Fuel\<close>

lemma readMap_mono:
  "readMap P n cache acc r = Some x \<Longrightarrow> n \<le> m \<Longrightarrow> readMap P m cache acc r = Some x"
proof (induction n arbitrary: m acc r x)
  case 0
  then show ?case by simp
next
  case (Suc n)
  then obtain m' where m: "m = Suc m'" and le: "n \<le> m'"
    by (cases m) auto
  show ?case
  proof (cases "readCachedString P cache r")
    case (Inl e)
    with Suc.prems show ?thesis by (simp add: m)
  next
    case (Inr kr)
    obtain key r1 where kr: "kr = (key, r1)" by (cases kr)
    show ?thesis
    proof (cases "readSignedByte r1")
      case (Inl e)
      with Suc.prems Inr kr show ?thesis by (simp add: m)
    next
      case (Inr tr)
      obtain t r2 where tr: "tr = (t, r2)" by (cases tr)
      note rd = \<open>readCachedString P cache r = Inr kr\<close> kr Inr tr
      show ?thesis
      proof (cases "t = ENDOFMAP")
        case True
        with Suc.prems rd show ?thesis by (simp add: m)
      next
        case notend: False
        show ?thesis
        proof (cases "t = CMAP")
          case True
          show ?thesis
          proof (cases "readMap P n cache ([], None) r2")
            case None
            with Suc.prems rd True show ?thesis by simp
          next
            case (Some y)
            from Suc.IH [OF Some le] have inner: "readMap P m' cache ([], None) r2 = Some y" .
            show ?thesis
            proof (cases y)
              case (Inl e)
              from Suc.prems rd True Some Inl have "x = Inl e" by simp
              with rd True inner Inl show ?thesis by (simp add: m)
            next
              case (Inr vr)
              obtain v r3 where vr: "vr = (v, r3)" by (cases vr)
              from Suc.prems rd True Some Inr vr
              have "readMap P n cache (obj_assign (to_key key) v acc) r3 = Some x"
                by simp
              from Suc.IH [OF this le] rd True inner Inr vr show ?thesis
                by (simp add: m)
            qed
          qed
        next
          case notmap: False
          show ?thesis
          proof (cases "read_scalar P cache t r2")
            case None
            with Suc.prems rd notend notmap show ?thesis by (simp add: m)
          next
            case (Some y)
            show ?thesis
            proof (cases y)
              case (Inl e)
              from Suc.prems rd notend notmap Some Inl have "x = Inl e" by simp
              with rd notend notmap Some Inl show ?thesis by (simp add: m)
            next
              case (Inr vr)
              obtain v r3 where vr: "vr = (v, r3)" by (cases vr)
              from Suc.prems rd notend notmap Some Inr vr
              have "readMap P n cache (obj_assign (to_key key) v acc) r3 = Some x"
                by simp
              from Suc.IH [OF this le] rd notend notmap Some Inr vr show ?thesis
                by (simp add: m)
            qed
          qed
        qed
      qed
    qed
  qed
qed

subsection \<open>An unknown type code\<close>

lemma read_scalar_unknown:
  "t \<notin> set [1, 2, 3, 4, 5, 6, 7, 9, 11, 12] \<Longrightarrow> read_scalar P cache t r = None"
  by (simp add: read_scalar_def)

text \<open>
  C5: when the loop of \<open>_readMap\<close> has decoded entries and then meets a key followed by a
  type code outside 1, 2, 3, 4, 5, 6, 7, 9, 11, 12, it returns (with enough fuel) the map of
  the entries decoded so far; the cursor stands after the type code.
\<close>

theorem unknown_tag_tolerance:
  assumes "valid_entries P cache acc r acc' r'"
    and "readCachedString P cache r' = Inr (key, r1)"
    and "readSignedByte r1 = Inr (t, r2)"
    and "t \<notin> set [1, 2, 3, 4, 5, 6, 7, 9, 11, 12]"
  shows "\<exists>n. \<forall>m\<ge>n. readMap P m cache acc r = Some (Inr (JObj (fst acc') (snd acc'), r2))"
  using assms
proof (induction rule: valid_entries.induct)
  case (no_entry acc r)
  have "readMap P (Suc m) cache acc r = Some (Inr (JObj (fst acc) (snd acc), r2))" for m
    using no_entry read_scalar_unknown [OF no_entry(3), of P cache r2] by simp
  then have "\<forall>m\<ge>1. readMap P m cache acc r = Some (Inr (JObj (fst acc) (snd acc), r2))"
    by (metis Suc_le_D One_nat_def)
  then show ?case by blast
next
  case (scalar_entry r k ra t' rb v rc acc acc' r')
  from scalar_entry.IH [OF scalar_entry.prems]
  obtain n where n: "\<forall>m\<ge>n. readMap P m cache (obj_assign (to_key k) v acc) rc
                        = Some (Inr (JObj (fst acc') (snd acc'), r2))"
    by blast
  have "readMap P (Suc m) cache acc r = Some (Inr (JObj (fst acc') (snd acc'), r2))" if "n \<le> m" for m
    using scalar_entry.hyps n that by simp
  then have "\<forall>m\<ge>Suc n. readMap P m cache acc r = Some (Inr (JObj (fst acc') (snd acc'), r2))"
    by (metis Suc_le_D Suc_le_mono)
  then show ?case by blast
next
  case (map_entry r k ra rb n0 v rc acc acc' r')
  from map_entry.IH [OF map_entry.prems]
  obtain n where n: "\<forall>m\<ge>n. readMap P m cache (obj_assign (to_key k) v acc) rc
                        = Some (Inr (JObj (fst acc') (snd acc'), r2))"
    by blast
  have "readMap P (Suc m) cache acc r = Some (Inr (JObj (fst acc') (snd acc'), r2))"
    if "max n n0 \<le> m" for m
  proof -
    from that have "n0 \<le> m" and "n \<le> m" by simp_all
    from readMap_mono [OF map_entry.hyps(3) \<open>n0 \<le> m\<close>] map_entry.hyps(1,2) n \<open>n \<le> m\<close>
    show ?thesis by simp
  qed
  then have "\<forall>m\<ge>Suc (max n n0). readMap P m cache acc r = Some (Inr (JObj (fst acc') (snd acc'), r2))"
    by (metis Suc_le_D Suc_le_mono)
  then show ?case by blast
qed

theorem unknown_tag_tolerance_witness:
  "\<exists>n. \<forall>m\<ge>n. readMap ascii_platform m [''a''] ([], None)
       (cursor [] [0, 0, 0, 0, 1, 7, 0, 0, 0, 0, 0, 0, 0, 8, 99])
     = Some (Inr (JObj [(''a'', JNum 7)] None,
                  cursor [0, 0, 0, 0, 1, 7, 0, 0, 0, 0, 0, 0, 0, 8] [99]))"
proof -
  let ?c = "[''a'']"
  have k1: "readCachedString ascii_platform ?c (cursor [] [0, 0, 0, 0, 1, 7, 0, 0, 0, 0, 0, 0, 0, 8, 99])
          = Inr (Some ''a'', cursor [0, 0, 0, 0] [1, 7, 0, 0, 0, 0, 0, 0, 0, 8, 99])"
    by (simp add: readCachedString_def array_get_def cursor_simps)
  have t1: "readSignedByte (cursor [0, 0, 0, 0] [1, 7, 0, 0, 0, 0, 0, 0, 0, 8, 99])
          = Inr (1, cursor [0, 0, 0, 0, 1] [7, 0, 0, 0, 0, 0, 0, 0, 8, 99])"
    by (simp add: cursor_simps)
  have v1: "read_scalar ascii_platform ?c 1 (cursor [0, 0, 0, 0, 1] [7, 0, 0, 0, 0, 0, 0, 0, 8, 99])
          = Some (Inr (JNum 7, cursor [0, 0, 0, 0, 1, 7, 0, 0, 0] [0, 0, 0, 0, 8, 99]))"
    by (simp add: read_scalar_def cursor_simps)
  have a1: "obj_assign (to_key (Some ''a'')) (JNum 7) ([], None) = ([(''a'', JNum 7)], None)"
    by (simp add: decode_defs)
  have ve: "valid_entries ascii_platform ?c ([], None)
              (cursor [] [0, 0, 0, 0, 1, 7, 0, 0, 0, 0, 0, 0, 0, 8, 99])
              ([(''a'', JNum 7)], None)
              (cursor [0, 0, 0, 0, 1, 7, 0, 0, 0] [0, 0, 0, 0, 8, 99])"
    by (rule scalar_entry [OF k1 t1 _ _ v1]) (simp_all add: a1 no_entry)
  have k2: "readCachedString ascii_platform ?c (cursor [0, 0, 0, 0, 1, 7, 0, 0, 0] [0, 0, 0, 0, 8, 99])
          = Inr (Some ''a'', cursor [0, 0, 0, 0, 1, 7, 0, 0, 0, 0, 0, 0, 0] [8, 99])"
    by (simp add: readCachedString_def array_get_def cursor_simps)
  have t2: "readSignedByte (cursor [0, 0, 0, 0, 1, 7, 0, 0, 0, 0, 0, 0, 0] [8, 99])
          = Inr (8, cursor [0, 0, 0, 0, 1, 7, 0, 0, 0, 0, 0, 0, 0, 8] [99])"
    by (simp add: cursor_simps)
  have u: "(8::int) \<notin> set [1, 2, 3, 4, 5, 6, 7, 9, 11, 12]"
    by simp
  show ?thesis
    using unknown_tag_tolerance [OF ve k2 t2 u] by simp
qed

subsection \<open>The order of the keys of an object\<close>

lemma map_fst_props_update: "map fst (props_update k v ps) = map fst ps"
  by (induction ps) auto

lemma has_own_iff: "has_own ps k \<longleftrightarrow> k \<in> set (map fst ps)"
  by (induction ps) (auto simp add: has_own_def)

lemma digits_val_snoc: "digits_val (s @ [c]) = 10 * digits_val s + (of_char c - 48)"
  by (simp add: digits_val_def)

lemma digits_val_pos:
  "s \<noteq> [] \<Longrightarrow> list_all is_digit s \<Longrightarrow> hd s \<noteq> CHR ''0'' \<Longrightarrow> 0 < digits_val s"
proof (induction s rule: rev_induct)
  case Nil
  then show ?case by simp
next
  case (snoc c s)
  show ?case
  proof (cases "s = []")
    case True
    with snoc.prems have "is_digit c" and "c \<noteq> CHR ''0''"
      by simp_all
    have "(of_char (CHR ''0'') :: nat) = 48"
      by simp
    with \<open>c \<noteq> CHR ''0''\<close> have "(of_char c :: nat) \<noteq> 48"
      by (metis of_char_eq_iff)
    with \<open>is_digit c\<close> show ?thesis
      by (simp add: True digits_val_def is_digit_def)
  next
    case False
    with snoc have "0 < digits_val s"
      by simp
    then show ?thesis
      by (simp add: digits_val_snoc)
  qed
qed


lemma hex_digit_of_digit:
  assumes "is_digit c"
  shows "hex_digit (of_char c - 48) = c"
proof -
  from assms have "(of_char c :: nat) - 48 \<in> {0, 1, 2, 3, 4, 5, 6, 7, 8, 9}"
    unfolding is_digit_def by simp arith
  then have "of_char (hex_digit (of_char c - 48)) = (48 + (of_char c - 48) :: nat)"
    by (auto simp add: hex_digit_def)
  also have "\<dots> = of_char c"
    using assms by (simp add: is_digit_def)
  finally show ?thesis
    by (simp only: of_char_eq_iff)
qed

lemma digit_bound: "is_digit c \<Longrightarrow> (of_char c :: nat) - 48 < 10"
  by (simp add: is_digit_def) arith

lemma show_nat_digits_val:
  "s \<noteq> [] \<Longrightarrow> list_all is_digit s \<Longrightarrow> length s = 1 \<or> hd s \<noteq> CHR ''0'' \<Longrightarrow>
   show_nat (digits_val s) = s"
proof (induction s rule: rev_induct)
  case Nil
  then show ?case by simp
next
  case (snoc c s)
  from snoc.prems have c: "is_digit c"
    by simp
  show ?case
  proof (cases "s = []")
    case True
    show ?thesis
      using digit_bound [OF c] hex_digit_of_digit [OF c]
      by (subst show_nat.simps) (simp add: True digits_val_def)
  next
    case False
    with snoc.prems have hd: "hd s \<noteq> CHR ''0''" and ds: "list_all is_digit s"
      by simp_all
    from digits_val_pos [OF False ds hd] have pos: "0 < digits_val s" .
    from snoc.IH [OF False ds] hd have ih: "show_nat (digits_val s) = s"
      by simp
    have d: "digits_val (s @ [c]) = 10 * digits_val s + (of_char c - 48)"
      by (rule digits_val_snoc)
    have "\<not> digits_val (s @ [c]) < 10"
      using pos d by simp
    moreover have "digits_val (s @ [c]) div 10 = digits_val s"
      using digit_bound [OF c] d by simp
    moreover have "digits_val (s @ [c]) mod 10 = of_char c - 48"
      using digit_bound [OF c] d by simp
    ultimately show ?thesis
      using ih hex_digit_of_digit [OF c] by (subst show_nat.simps) simp
  qed
qed

lemma array_index_inj:
  assumes "is_array_index a" and "is_array_index b" and "digits_val a = digits_val b"
  shows "a = b"
proof -
  from assms(1) have a: "show_nat (digits_val a) = a"
    by (intro show_nat_digits_val) (simp_all add: is_array_index_def)
  from assms(2) have b: "show_nat (digits_val b) = b"
    by (intro show_nat_digits_val) (simp_all add: is_array_index_def)
  have "a = show_nat (digits_val a)"
    by (simp only: a)
  also have "\<dots> = show_nat (digits_val b)"
    by (simp only: assms(3))
  also have "\<dots> = b"
    by (simp only: b)
  finally show ?thesis .
qed

lemma map_fst_props_insert_index:
  "map fst (props_insert_index k v ps)
     = takeWhile (\<lambda>a. is_array_index a \<and> digits_val a < digits_val k) (map fst ps) @ k #
       dropWhile (\<lambda>a. is_array_index a \<and> digits_val a < digits_val k) (map fst ps)"
  by (induction ps) auto

lemma proto_not_index: "\<not> is_array_index ''__proto__''"
  by (simp add: is_array_index_def is_digit_def)

lemma canonical_insert_index:
  assumes "canonical_keys ks" and "k \<notin> set ks" and "is_array_index k"
  shows "canonical_keys (takeWhile (\<lambda>a. is_array_index a \<and> digits_val a < digits_val k) ks @ k #
           dropWhile (\<lambda>a. is_array_index a \<and> digits_val a < digits_val k) ks)"
  using assms
proof (induction ks)
  case Nil
  with proto_not_index show ?case
    by (auto simp add: canonical_keys_def)
next
  case (Cons a ks)
  from Cons.prems have ck: "canonical_keys ks" and kn: "k \<notin> set ks" and ak: "a \<noteq> k"
    and a_rest: "\<forall>x\<in>set ks. key_before a x" and an: "a \<notin> set ks" and ap: "a \<noteq> ''__proto__''"
    by (auto simp add: canonical_keys_def)
  from Cons.prems(3) proto_not_index have kp: "k \<noteq> ''__proto__''"
    by auto
  show ?case
  proof (cases "is_array_index a \<and> digits_val a < digits_val k")
    case True
    from Cons.IH [OF ck kn Cons.prems(3)]
    have ih: "canonical_keys (takeWhile (\<lambda>a. is_array_index a \<and> digits_val a < digits_val k) ks @ k #
           dropWhile (\<lambda>a. is_array_index a \<and> digits_val a < digits_val k) ks)" .
    have "\<forall>x\<in>set (takeWhile (\<lambda>a. is_array_index a \<and> digits_val a < digits_val k) ks @ k #
           dropWhile (\<lambda>a. is_array_index a \<and> digits_val a < digits_val k) ks). key_before a x"
      using a_rest True by (auto dest: set_takeWhileD set_dropWhileD)
    moreover have "a \<notin> set (takeWhile (\<lambda>a. is_array_index a \<and> digits_val a < digits_val k) ks @ k #
           dropWhile (\<lambda>a. is_array_index a \<and> digits_val a < digits_val k) ks)"
      using an ak by (auto dest: set_takeWhileD set_dropWhileD)
    ultimately show ?thesis
      using ih True ap by (simp add: canonical_keys_def)
  next
    case False
    have ka: "key_before k a"
    proof (cases "is_array_index a")
      case True
      with False have "digits_val k \<le> digits_val a"
        by simp
      moreover have "digits_val k \<noteq> digits_val a"
        using array_index_inj [OF Cons.prems(3) True] ak by auto
      ultimately show ?thesis
        using Cons.prems(3) True by simp
    next
      case False
      then show ?thesis by simp
    qed
    have "key_before k x" if "x \<in> set ks" for x
    proof (cases "is_array_index x")
      case True
      with a_rest that have "is_array_index a" and "digits_val a < digits_val x"
        by (auto split: if_splits)
      with ka True Cons.prems(3) show ?thesis
        by (auto split: if_splits)
    next
      case False
      then show ?thesis by simp
    qed
    with ka Cons.prems False kp show ?thesis
      by (auto simp add: canonical_keys_def)
  qed
qed

lemma canonical_props_set:
  assumes "canonical_keys (map fst ps)" and "k \<noteq> ''__proto__''"
  shows "canonical_keys (map fst (props_set k v ps))"
proof (cases "has_own ps k")
  case True
  then show ?thesis
    using assms by (simp add: props_set_def map_fst_props_update)
next
  case own: False
  then have kn: "k \<notin> set (map fst ps)"
    by (simp add: has_own_iff)
  show ?thesis
  proof (cases "is_array_index k")
    case True
    from canonical_insert_index [OF assms(1) kn True] own True show ?thesis
      by (simp add: props_set_def map_fst_props_insert_index)
  next
    case False
    with own kn assms show ?thesis
      by (auto simp add: props_set_def canonical_keys_def sorted_wrt_append)
  qed
qed

lemma canonical_obj_assign:
  "canonical_keys (map fst (fst acc)) \<Longrightarrow> canonical_keys (map fst (fst (obj_assign k v acc)))"
  by (simp add: obj_assign_def canonical_props_set)

lemma readMap_canonical:
  "readMap P n cache acc r = Some (Inr (v, r')) \<Longrightarrow> canonical_keys (map fst (fst acc)) \<Longrightarrow>
   \<exists>ps pr. v = JObj ps pr \<and> canonical_keys (map fst ps)"
proof (induction n arbitrary: acc r)
  case 0
  then show ?case by simp
next
  case (Suc n)
  note canonical_obj_assign [OF Suc.prems(2)]
  with Suc.prems(1) Suc.IH Suc.prems(2) show ?case
    by (auto simp add: fbind_def split: sum.splits option.splits if_splits prod.splits)
qed


subsection \<open>Writing the entries of a map\<close>

lemma rbind_assoc: "rbind (rbind m f) g = rbind m (\<lambda>x. rbind (f x) g)"
  by (cases m) simp_all

lemma writeMap_append:
  "writeMap P toBil cache w (ps @ qs)
     = rbind (writeMap P toBil cache w ps) (\<lambda>w1. writeMap P toBil cache w1 qs)"
proof (induction ps arbitrary: w)
  case Nil
  show ?case by simp
next
  case (Cons p ps)
  obtain k v where p: "p = (k, v)" by (cases p)
  show ?case
  proof (cases "toBil \<and> skipped_in_bil v")
    case True
    then have "writeMap P toBil cache w ((p # ps) @ qs) = writeMap P toBil cache w (ps @ qs)"
      and "writeMap P toBil cache w (p # ps) = writeMap P toBil cache w ps"
      by (simp_all add: p)
    then show ?thesis
      by (simp only: Cons.IH)
  next
    case False
    then have "writeMap P toBil cache w ((p # ps) @ qs)
        = rbind (writeCachedString P w cache (Some k)) (\<lambda>w1.
          rbind (write_value P toBil cache w1 v) (\<lambda>w2. writeMap P toBil cache w2 (ps @ qs)))"
      and "writeMap P toBil cache w (p # ps)
        = rbind (writeCachedString P w cache (Some k)) (\<lambda>w1.
          rbind (write_value P toBil cache w1 v) (\<lambda>w2. writeMap P toBil cache w2 ps))"
      by (auto simp add: p)
    then show ?thesis
      by (simp only: Cons.IH rbind_assoc)
  qed
qed

subsection \<open>Reading what was written\<close>

lemma le32_to_le32:
  "le32 (ucast w) (ucast (drop_bit 8 w)) (ucast (drop_bit 16 w)) (ucast (drop_bit 24 w)) = w"
  unfolding le32_def
proof (rule bit_word_eqI)
  fix n
  assume "n < LENGTH(32)"
  then consider "n < 8" | "8 \<le> n" "n < 16" | "16 \<le> n" "n < 24" | "24 \<le> n" "n < 32"
    by fastforce
  then show "bit (ucast (ucast w :: byte) OR push_bit 8 (ucast (ucast (drop_bit 8 w) :: byte))
               OR push_bit 16 (ucast (ucast (drop_bit 16 w) :: byte))
               OR push_bit 24 (ucast (ucast (drop_bit 24 w) :: byte)) :: 32 word) n = bit w n"
    by cases (simp_all add: bit_simps, auto)
qed

lemma le16_to_le16: "le16 (ucast w) (ucast (drop_bit 8 w)) = w"
  unfolding le16_def
proof (rule bit_word_eqI)
  fix n
  assume "n < LENGTH(16)"
  then consider "n < 8" | "8 \<le> n" "n < 16"
    by fastforce
  then show "bit (ucast (ucast w :: byte) OR push_bit 8 (ucast (ucast (drop_bit 8 w) :: byte)) :: 16 word) n
               = bit w n"
    by cases (simp_all add: bit_simps, auto)
qed

lemma sint_int32: "int32 n \<Longrightarrow> sint (word_of_int n :: 32 word) = n"
  by (simp add: int32_def signed_of_int signed_take_bit_int_eq_self)

lemma sint_int16: "int16 n \<Longrightarrow> sint (word_of_int n :: 16 word) = n"
  by (simp add: int16_def signed_of_int signed_take_bit_int_eq_self)

lemma sint_int8: "- 128 \<le> n \<Longrightarrow> n < 128 \<Longrightarrow> sint (word_of_int n :: 8 word) = n"
  by (simp add: signed_of_int signed_take_bit_int_eq_self)

lemma length_to_le32 [simp]: "length (to_le32 w) = 4"
  by (simp add: to_le32_def)

lemma length_int_bytes [simp]: "length (int_bytes n) = 4"
  by (simp add: int_bytes_def)

lemma readInt_written:
  "int32 n \<Longrightarrow> readInt (cursor pre (int_bytes n @ post)) = Inr (n, cursor (pre @ int_bytes n) post)"
  by (simp add: int_bytes_def to_le32_def readInt_cursor le32_to_le32 sint_int32)

lemma readFloat_written:
  "readFloat (cursor pre (to_le32 f @ post)) = Inr (f, cursor (pre @ to_le32 f) post)"
  by (simp add: to_le32_def readFloat_cursor le32_to_le32)

lemma readSignedByte_written:
  "- 128 \<le> t \<Longrightarrow> t < 128 \<Longrightarrow>
   readSignedByte (cursor pre (word_of_int t # post)) = Inr (t, cursor (pre @ [word_of_int t]) post)"
  by (simp add: readSignedByte_cursor sint_int8)

lemma readBytes_written:
  "readBytes (int (length bs)) (cursor pre (bs @ post)) = (bs, cursor (pre @ bs) post)"
  by (simp add: readBytes_cursor)

lemma int32_length: "n < 2147483648 \<Longrightarrow> int32 (int n)"
  by (simp add: int32_def)

lemma readString_written:
  "string_ok P s \<Longrightarrow>
   readString P (cursor pre (string_bytes P s @ post)) = Inr (s, cursor (pre @ string_bytes P s) post)"
  by (simp add: readString_def string_bytes_def string_ok_def readInt_written int32_length
      readBytes_written)

lemma writeInt_bytes: "writeInt w n = w @ int_bytes n"
  by (simp add: writeInt_def int_bytes_def)

lemma writeString_bytes: "writeString P w s = w @ string_bytes P s"
  by (simp add: writeString_def string_bytes_def writeInt_bytes writeBytes_def Let_def)

lemma writeVariant_bytes: "writeVariant w v = w @ variant_bytes v"
  by (simp add: writeVariant_def variant_bytes_def writeInt_bytes writeFloat_def)

lemma foldl_write:
  assumes "\<And>w x. f w x = w @ enc x"
  shows "foldl f w xs = w @ concat (map enc xs)"
  by (induction xs arbitrary: w) (simp_all add: assms)

lemma read_n_written:
  assumes "\<And>x pre post. x \<in> set xs \<Longrightarrow> f (cursor pre (enc x @ post)) = Inr (x, cursor (pre @ enc x) post)"
  shows "read_n (length xs) f (cursor pre (concat (map enc xs) @ post))
           = Inr (xs, cursor (pre @ concat (map enc xs)) post)"
  using assms
proof (induction xs arbitrary: pre)
  case Nil
  show ?case by simp
next
  case (Cons x xs)
  have "f (cursor pre (enc x @ concat (map enc xs) @ post))
          = Inr (x, cursor (pre @ enc x) (concat (map enc xs) @ post))"
    using Cons.prems [of x pre "concat (map enc xs) @ post"] by simp
  moreover have "read_n (length xs) f (cursor (pre @ enc x) (concat (map enc xs) @ post))
          = Inr (xs, cursor ((pre @ enc x) @ concat (map enc xs)) post)"
    by (rule Cons.IH) (simp add: Cons.prems)
  ultimately show ?case by simp
qed

lemma loadStringsCache_written:
  assumes "list_all (string_ok P) order" and "length order < 2147483648"
  shows "loadStringsCache P (cursor pre (int_bytes (int (length order)) @ concat (map (string_bytes P) order) @ post))
           = Inr (order, cursor (pre @ int_bytes (int (length order)) @ concat (map (string_bytes P) order)) post)"
proof -
  have "read_n (length order) (readString P)
          (cursor (pre @ int_bytes (int (length order))) (concat (map (string_bytes P) order) @ post))
        = Inr (order, cursor ((pre @ int_bytes (int (length order))) @ concat (map (string_bytes P) order)) post)"
    by (rule read_n_written) (use assms(1) in \<open>simp add: list_all_iff readString_written\<close>)
  then show ?thesis
    using assms(2) by (simp add: loadStringsCache_def readInt_written int32_length)
qed

lemma writeStringsCacheInOrder_bytes:
  "writeStringsCacheInOrder P w order
     = w @ int_bytes (int (length order)) @ concat (map (string_bytes P) order)"
  by (simp add: writeStringsCacheInOrder_def writeInt_bytes
      foldl_write [where f = "writeString P" and enc = "string_bytes P", OF writeString_bytes])

lemma read_variant_written:
  "variant_ok v \<Longrightarrow>
   read_variant (cursor pre (variant_bytes v @ post)) = Inr (v, cursor (pre @ variant_bytes v) post)"
  by (cases v)
     (simp add: variant_ok_def read_variant_def variant_bytes_def scale_or_1_def int_or_def
        readFloat_written readInt_written)

subsection \<open>Writing a well-formed map\<close>

lemma num_list_Some: "num_list x = Some ns \<Longrightarrow> x = JArr (map JNum ns)"
proof -
  have "list_all (\<lambda>x. case x of JNum n \<Rightarrow> True | _ \<Rightarrow> False) xs \<Longrightarrow>
        map JNum (map (\<lambda>x. case x of JNum n \<Rightarrow> n | _ \<Rightarrow> 0) xs) = xs" for xs
    by (induction xs) (auto split: jsval.splits)
  then show "num_list x = Some ns \<Longrightarrow> x = JArr (map JNum ns)"
    by (auto simp add: num_list_def split: jsval.splits if_splits)
qed

lemma num_list_JArr: "num_list (JArr (map JNum ns)) = Some ns"
  by (induction ns) (auto simp add: num_list_def list_all_iff comp_def)

lemma wf_tagged_cases:
  assumes "wf_tagged P v"
  obtains (null) "v = tagged_null"
  | (float) f where "v = tagged CFLOAT (JFloat f)"
  | (string) s where "v = tagged CSTRING (JStr s)" and "string_ok P s"
  | (color) h where "v = tagged CCOLOR (JStr h)"
      and "h = ''0x'' @ hexFromBytes (hexToBytes (drop 2 h))" and "length (hexToBytes (drop 2 h)) = 4"
  | (rect) ns where "v = tagged RECT32 (JArr (map JNum ns))" and "length ns = 4" and "list_all int16 ns"
proof -
  define x where "x = get_prop v ''Value''"
  from assms consider "v = tagged_null" | "v = tagged CFLOAT x \<and> float_ok x"
    | "v = tagged CSTRING x \<and> ustring_ok P x" | "v = tagged CCOLOR x \<and> color_ok x"
    | "v = tagged RECT32 x \<and> rect_ok x"
    by (auto simp add: wf_tagged_def x_def Let_def)
  then show thesis
  proof cases
    case 1
    then show ?thesis by (rule null)
  next
    case 2
    then show ?thesis
      by (cases x) (auto simp add: float_ok_def intro: float)
  next
    case 3
    then show ?thesis
      by (cases x) (auto simp add: ustring_ok_def intro: string)
  next
    case 4
    then show ?thesis
      by (cases x) (auto simp add: color_ok_def intro: color)
  next
    case 5
    then obtain ns where "num_list x = Some ns" and "length ns = 4" and "list_all int16 ns"
      by (auto simp add: rect_ok_def split: option.splits)
    with 5 num_list_Some [of x ns] show ?thesis
      by (auto intro: rect)
  qed
qed

lemma get_prop_tagged [simp]:
  "get_prop (tagged t x) ''ValueType'' = JNum t"
  "get_prop (tagged t x) ''Value'' = x"
  "get_prop tagged_null ''ValueType'' = JNum 12"
  by (simp_all add: tagged_def tagged_null_def)

lemma write_value_tagged:
  "write_value P toBil cache w (tagged t x) = write_tagged_payload P (writeByte w t) t x"
  by (simp add: tagged_def)

lemma writeByte_bytes: "writeByte w t = w @ [word_of_int t]"
  by (simp add: writeByte_def)

lemma write_value_forms:
  "write_value P toBil cache w (JNum n) = Inr (w @ 1 # int_bytes n)"
  "write_value P toBil cache w (JBool b) = Inr (w @ [5, if b then 1 else 0])"
  "write_value P toBil cache w tagged_null = Inr (w @ [12])"
  "write_value P toBil cache w (tagged CFLOAT (JFloat f)) = Inr (w @ 7 # to_le32 f)"
  "write_value P toBil cache w (tagged CSTRING (JStr s)) = Inr (w @ 2 # string_bytes P s)"
  "write_value P toBil cache w (tagged CCOLOR (JStr h)) = Inr (w @ 6 # hexToBytes (drop 2 h))"
  "write_value P toBil cache w (tagged RECT32 (JArr (map JNum ns))) = Inr (w @ 11 # shortsToBytes ns)"
  by (simp_all add: write_value_tagged write_tagged_payload_def writeByte_bytes writeInt_bytes
      writeString_bytes writeFloat_def writeBytes_def tagged_null_def num_list_JArr)

lemma cache_hit:
  assumes "cache_ok (cache, order)" and "has_own cache s"
  shows "the (map_of cache s) < length order" and "order ! the (map_of cache s) = s"
    and "map_of cache s = Some (the (map_of cache s))" and "cache \<noteq> []" and "order \<noteq> []"
proof -
  from assms(2) obtain i where i: "map_of cache s = Some i"
    by (auto simp add: has_own_def)
  with assms(1) have "i < length order \<and> order ! i = s"
    by (simp add: cache_ok_def)
  with i show "the (map_of cache s) < length order" and "order ! the (map_of cache s) = s"
    and "map_of cache s = Some (the (map_of cache s))" and "cache \<noteq> []" and "order \<noteq> []"
    by auto
qed

lemma writeCachedString_hit:
  assumes "cache_ok (cache, order)" and "has_own cache s"
  shows "writeCachedString P w cache (Some s) = Inr (w @ ref_bytes cache s)"
proof -
  from assms(2) obtain i where i: "map_of cache s = Some i"
    by (auto simp add: has_own_def)
  then have "cache \<noteq> []"
    by auto
  with i show ?thesis
    by (simp add: writeCachedString_def to_key_def ref_bytes_def writeInt_bytes)
qed

lemma write_value_str:
  assumes "cache_ok (cache, order)" and "has_own cache s"
  shows "write_value P toBil cache w (JStr s) = Inr (w @ 9 # ref_bytes cache s)"
  using writeCachedString_hit [OF assms] by (simp add: writeByte_bytes)

lemma write_ok:
  assumes "cache_ok (cache, order)"
  shows "wf_value P v \<Longrightarrow> \<forall>s\<in>set (value_strings v). has_own cache s \<Longrightarrow>
           \<exists>bs. \<forall>w. write_value P toBil cache w v = Inr (w @ bs)"
    and "wf_props P ps \<Longrightarrow> \<forall>s\<in>set (props_strings ps). has_own cache s \<Longrightarrow>
           \<exists>bs. \<forall>w. writeMap P toBil cache w ps = Inr (w @ bs)"
proof (induction P v and P ps rule: wf_value_wf_props.induct)
  case (1 P n)
  show ?case by (simp only: write_value_forms) blast
next
  case (2 P s)
  then have "has_own cache s" by simp
  show ?case by (simp only: write_value_str [OF assms \<open>has_own cache s\<close>]) blast
next
  case (3 P b)
  show ?case by (simp only: write_value_forms) blast
next
  case (4 P ps pr)
  show ?case
  proof (cases "wf_tagged P (JObj ps pr)")
    case True
    then show ?thesis
    proof (cases rule: wf_tagged_cases)
      case null
      show ?thesis by (simp only: null write_value_forms) blast
    next
      case (float f)
      show ?thesis by (simp only: float write_value_forms) blast
    next
      case (string s)
      show ?thesis by (simp only: string(1) write_value_forms) blast
    next
      case (color h)
      show ?thesis by (simp only: color(1) write_value_forms) blast
    next
      case (rect ns)
      show ?thesis by (simp only: rect(1) write_value_forms) blast
    qed
  next
    case False
    with "4.prems" have pr: "pr = None" and vt: "map_of ps ''ValueType'' = None"
      and ck: "canonical_keys (map fst ps)" and wf: "wf_props P ps"
      by simp_all
    from "4.prems"(2) vt pr have "\<forall>s\<in>set (props_strings ps). has_own cache s"
      by simp
    from "4.IH" [OF wf this]
    obtain bs where bs: "\<And>w. writeMap P toBil cache w ps = Inr (w @ bs)"
      by blast
    have "write_value P toBil cache w (JObj ps pr) = Inr (w @ 3 # bs @ string_bytes P [] @ [4])" for w
      by (simp add: pr vt bs writeByte_bytes writeString_bytes)
    then show ?thesis by blast
  qed
next
  case (10 P k v ps)
  from "10.prems" have k: "cached_ok P k" and v: "wf_value P v" and ps: "wf_props P ps"
    and sk: "has_own cache k" and sv: "\<forall>s\<in>set (value_strings v). has_own cache s"
    and sps: "\<forall>s\<in>set (props_strings ps). has_own cache s"
    by simp_all
  from "10.IH"(1) [OF v sv] obtain bv where bv: "\<And>w. write_value P toBil cache w v = Inr (w @ bv)"
    by blast
  from "10.IH"(2) [OF ps sps] obtain bp where bp: "\<And>w. writeMap P toBil cache w ps = Inr (w @ bp)"
    by blast
  show ?case
  proof (cases "toBil \<and> skipped_in_bil v")
    case True
    then have "writeMap P toBil cache w ((k, v) # ps) = writeMap P toBil cache w ps" for w
      by simp
    then have "writeMap P toBil cache w ((k, v) # ps) = Inr (w @ bp)" for w
      by (simp only: bp)
    then show ?thesis by blast
  next
    case False
    then have "writeMap P toBil cache w ((k, v) # ps)
        = rbind (writeCachedString P w cache (Some k)) (\<lambda>w1.
          rbind (write_value P toBil cache w1 v) (\<lambda>w2. writeMap P toBil cache w2 ps))" for w
      by auto
    then have "writeMap P toBil cache w ((k, v) # ps) = Inr (w @ ref_bytes cache k @ bv @ bp)" for w
      by (simp only: writeCachedString_hit [OF assms sk] bv bp rbind_simps append_assoc)
    then show ?thesis by blast
  qed
qed simp_all

lemma write_value_bytes:
  assumes "cache_ok (cache, order)" and "wf_value P v" and "\<forall>s\<in>set (value_strings v). has_own cache s"
  shows "write_value P toBil cache w v = Inr (w @ value_bytes P toBil cache v)"
proof -
  from write_ok(1) [OF assms] obtain bs where bs: "\<And>w. write_value P toBil cache w v = Inr (w @ bs)"
    by blast
  from bs [of "[]"] have "value_bytes P toBil cache v = bs"
    by (simp add: value_bytes_def)
  with bs show ?thesis by simp
qed

lemma writeMap_bytes:
  assumes "cache_ok (cache, order)" and "wf_props P ps" and "\<forall>s\<in>set (props_strings ps). has_own cache s"
  shows "writeMap P toBil cache w ps = Inr (w @ map_bytes P toBil cache ps)"
proof -
  from write_ok(2) [OF assms] obtain bs where bs: "\<And>w. writeMap P toBil cache w ps = Inr (w @ bs)"
    by blast
  from bs [of "[]"] have "map_bytes P toBil cache ps = bs"
    by (simp add: map_bytes_def)
  with bs show ?thesis by simp
qed

lemma value_bytes_forms:
  "value_bytes P toBil cache (JNum n) = 1 # int_bytes n"
  "value_bytes P toBil cache (JBool b) = [5, if b then 1 else 0]"
  "value_bytes P toBil cache tagged_null = [12]"
  "value_bytes P toBil cache (tagged CFLOAT (JFloat f)) = 7 # to_le32 f"
  "value_bytes P toBil cache (tagged CSTRING (JStr s)) = 2 # string_bytes P s"
  "value_bytes P toBil cache (tagged CCOLOR (JStr h)) = 6 # hexToBytes (drop 2 h)"
  "value_bytes P toBil cache (tagged RECT32 (JArr (map JNum ns))) = 11 # shortsToBytes ns"
  by (simp_all only: value_bytes_def write_value_forms sum.case append_Nil)

lemma value_bytes_str:
  assumes "cache_ok (cache, order)" and "has_own cache s"
  shows "value_bytes P toBil cache (JStr s) = 9 # ref_bytes cache s"
  by (simp only: value_bytes_def write_value_str [OF assms] sum.case append_Nil)

lemma value_bytes_map:
  assumes "cache_ok (cache, order)" and "wf_props P ps" and "\<forall>s\<in>set (props_strings ps). has_own cache s"
    and "map_of ps ''ValueType'' = None"
  shows "value_bytes P toBil cache (JObj ps None) = 3 # map_bytes P toBil cache ps @ string_bytes P [] @ [4]"
  using assms(4)
  by (simp add: value_bytes_def writeMap_bytes [OF assms(1-3)] writeByte_bytes writeString_bytes)

lemma map_bytes_Nil [simp]: "map_bytes P toBil cache [] = []"
  by (simp add: map_bytes_def)

lemma map_bytes_Cons:
  assumes "cache_ok (cache, order)" and "wf_props P ((k, v) # ps)"
    and "\<forall>s\<in>set (props_strings ((k, v) # ps)). has_own cache s"
  shows "map_bytes P toBil cache ((k, v) # ps)
           = (if toBil \<and> skipped_in_bil v then map_bytes P toBil cache ps
              else ref_bytes cache k @ value_bytes P toBil cache v @ map_bytes P toBil cache ps)"
proof -
  from assms(2,3) have v: "wf_value P v" and ps: "wf_props P ps"
    and sk: "has_own cache k" and sv: "\<forall>s\<in>set (value_strings v). has_own cache s"
    and sps: "\<forall>s\<in>set (props_strings ps). has_own cache s"
    by simp_all
  show ?thesis
  proof (cases "toBil \<and> skipped_in_bil v")
    case True
    then have "writeMap P toBil cache [] ((k, v) # ps) = writeMap P toBil cache [] ps"
      by simp
    with True show ?thesis
      by (simp add: map_bytes_def)
  next
    case False
    then have "writeMap P toBil cache [] ((k, v) # ps)
        = rbind (writeCachedString P [] cache (Some k)) (\<lambda>w1.
          rbind (write_value P toBil cache w1 v) (\<lambda>w2. writeMap P toBil cache w2 ps))"
      by auto
    then have "writeMap P toBil cache [] ((k, v) # ps)
        = Inr (ref_bytes cache k @ value_bytes P toBil cache v @ map_bytes P toBil cache ps)"
      by (simp only: writeCachedString_hit [OF assms(1) sk] write_value_bytes [OF assms(1) v sv]
          writeMap_bytes [OF assms(1) ps sps] rbind_simps append_assoc append_Nil)
    with False show ?thesis
      by (auto simp add: map_bytes_def)
  qed
qed

subsection \<open>Reading the values of a well-formed map\<close>

lemma readCachedString_ref:
  assumes "cache_ok (cache, order)" and "has_own cache s" and "length order < 2147483648"
  shows "readCachedString P order (cursor pre (ref_bytes cache s @ post))
           = Inr (Some s, cursor (pre @ ref_bytes cache s) post)"
proof -
  note h = cache_hit [OF assms(1,2)]
  from h(1) assms(3) have "int32 (int (the (map_of cache s)))"
    by (simp add: int32_def)
  then show ?thesis
    using h(1,2,5) by (simp add: readCachedString_def ref_bytes_def readInt_written array_get_def)
qed

lemma read_scalar_num:
  "int32 n \<Longrightarrow> read_scalar P order 1 (cursor pre (int_bytes n @ post))
     = Some (Inr (JNum n, cursor (pre @ int_bytes n) post))"
  by (simp add: read_scalar_def readInt_written)

lemma read_scalar_str:
  assumes "cache_ok (cache, order)" and "has_own cache s" and "length order < 2147483648"
  shows "read_scalar P order 9 (cursor pre (ref_bytes cache s @ post))
     = Some (Inr (JStr s, cursor (pre @ ref_bytes cache s) post))"
  by (simp add: read_scalar_def readCachedString_ref [OF assms] str_or_undef_def)

lemma read_scalar_bool:
  "read_scalar P order 5 (cursor pre ((if b then 1 else 0) # post))
     = Some (Inr (JBool b, cursor (pre @ [if b then 1 else 0]) post))"
  by (simp add: read_scalar_def readSignedByte_cursor)

lemma read_scalar_null: "read_scalar P order 12 r = Some (Inr (tagged_null, r))"
  by (simp add: read_scalar_def)

lemma read_scalar_float:
  "read_scalar P order 7 (cursor pre (to_le32 f @ post))
     = Some (Inr (tagged CFLOAT (JFloat f), cursor (pre @ to_le32 f) post))"
  by (simp add: read_scalar_def readFloat_written)

lemma read_scalar_string:
  "string_ok P s \<Longrightarrow> read_scalar P order 2 (cursor pre (string_bytes P s @ post))
     = Some (Inr (tagged CSTRING (JStr s), cursor (pre @ string_bytes P s) post))"
  by (simp add: read_scalar_def readString_written)

lemma read_scalar_color:
  assumes "h = ''0x'' @ hexFromBytes bs" and "length bs = 4"
  shows "read_scalar P order 6 (cursor pre (bs @ post))
     = Some (Inr (tagged CCOLOR (JStr h), cursor (pre @ bs) post))"
  using readBytes_written [of bs pre post] assms
  by (simp add: read_scalar_def color_value_def)

lemma length_shortsToBytes: "length (shortsToBytes ns) = 2 * length ns"
  by (induction ns) (simp_all add: shortsToBytes_def to_le16_def)

lemma shortsFromBytes8_written:
  assumes "int16 a" and "int16 b" and "int16 c" and "int16 d"
  shows "shortsFromBytes8 (shortsToBytes [a, b, c, d]) = Inr [a, b, c, d]"
  using assms
  by (simp add: shortsFromBytes8_def shortsToBytes_def to_le16_def le16_to_le16 sint_int16)

lemma read_scalar_rect:
  assumes "length ns = 4" and "list_all int16 ns"
  shows "read_scalar P order 11 (cursor pre (shortsToBytes ns @ post))
     = Some (Inr (tagged RECT32 (JArr (map JNum ns)), cursor (pre @ shortsToBytes ns) post))"
proof -
  from assms(1) obtain a b c d where ns: "ns = [a, b, c, d]"
    by (auto simp add: length_Suc_conv eval_nat_numeral)
  from assms(2) have "shortsFromBytes8 (shortsToBytes ns) = Inr ns"
    by (simp add: ns shortsFromBytes8_written)
  moreover have "length (shortsToBytes ns) = 8"
    by (simp add: length_shortsToBytes assms(1))
  ultimately show ?thesis
    using readBytes_written [of "shortsToBytes ns" pre post]
    by (simp add: read_scalar_def)
qed

lemma canonical_keys_Cons:
  "canonical_keys (k # ks) \<longleftrightarrow>
     k \<notin> set ks \<and> k \<noteq> ''__proto__'' \<and> (\<forall>x\<in>set ks. key_before k x) \<and> canonical_keys ks"
  by (auto simp add: canonical_keys_def)

lemma canonical_keys_append1: "canonical_keys (xs @ ys) \<Longrightarrow> canonical_keys xs"
  by (auto simp add: canonical_keys_def sorted_wrt_append)

lemma canonical_keys_middle: "canonical_keys (xs @ k # ys) \<Longrightarrow> canonical_keys (xs @ [k])"
  by (auto simp add: canonical_keys_def sorted_wrt_append)

lemma props_insert_index_end:
  "\<forall>a\<in>set (map fst ps). is_array_index a \<and> digits_val a < digits_val k \<Longrightarrow>
   props_insert_index k v ps = ps @ [(k, v)]"
  by (induction ps) auto

lemma obj_assign_append:
  assumes "canonical_keys (map fst ps @ [k])"
  shows "obj_assign k v (ps, pr) = (ps @ [(k, v)], pr)"
proof -
  from assms have kp: "k \<noteq> ''__proto__''" and kn: "k \<notin> set (map fst ps)"
    and before: "\<forall>a\<in>set (map fst ps). key_before a k"
    by (auto simp add: canonical_keys_def sorted_wrt_append)
  from kn have own: "\<not> has_own ps k"
    by (simp add: has_own_iff)
  show ?thesis
  proof (cases "is_array_index k")
    case True
    with before have "\<forall>a\<in>set (map fst ps). is_array_index a \<and> digits_val a < digits_val k"
      by simp
    from props_insert_index_end [OF this] True own kp show ?thesis
      by (simp add: obj_assign_def props_set_def)
  next
    case False
    with own kp show ?thesis
      by (simp add: obj_assign_def props_set_def)
  qed
qed

lemma key_props_in_mode: "(k, v) \<in> set (props_in_mode toBil ps) \<Longrightarrow> k \<in> fst ` set ps"
proof (induction ps)
  case Nil
  then show ?case by simp
next
  case (Cons p ps)
  obtain k' v' where p: "p = (k', v')" by (cases p)
  show ?case
  proof (cases "toBil \<and> skipped_in_bil v'")
    case True
    with Cons show ?thesis by (simp add: p)
  next
    case False
    with Cons.prems have "k = k' \<or> (k, v) \<in> set (props_in_mode toBil ps)"
      by (auto simp add: p)
    with Cons.IH show ?thesis by (auto simp add: p)
  qed
qed

lemma keys_props_in_mode: "set (map fst (props_in_mode toBil ps)) \<subseteq> set (map fst ps)"
  using key_props_in_mode by fastforce

lemma canonical_props_in_mode:
  "canonical_keys (map fst ps) \<Longrightarrow> canonical_keys (map fst (props_in_mode toBil ps))"
proof (induction ps)
  case Nil
  then show ?case by simp
next
  case (Cons p ps)
  obtain k v where p: "p = (k, v)" by (cases p)
  from Cons.prems have c: "canonical_keys (k # map fst ps)"
    by (simp add: p)
  then have ih: "canonical_keys (map fst (props_in_mode toBil ps))"
    using Cons.IH by (simp add: canonical_keys_Cons)
  show ?case
  proof (cases "toBil \<and> skipped_in_bil v")
    case True
    with ih show ?thesis by (simp add: p)
  next
    case False
    then have eq: "map fst (props_in_mode toBil (p # ps)) = k # map fst (props_in_mode toBil ps)"
      by (auto simp add: p)
    from c have "k \<notin> set (map fst ps)" and "k \<noteq> ''__proto__''"
      and "\<forall>x\<in>set (map fst ps). key_before k x"
      by (simp_all add: canonical_keys_Cons)
    with keys_props_in_mode [of toBil ps]
    have "k \<notin> set (map fst (props_in_mode toBil ps))"
      and "\<forall>x\<in>set (map fst (props_in_mode toBil ps)). key_before k x"
      by blast+
    with ih \<open>k \<noteq> ''__proto__''\<close> show ?thesis
      by (simp only: eq canonical_keys_Cons) blast
  qed
qed

lemma string_bytes_empty: "utf8_encode P [] = [] \<Longrightarrow> string_bytes P [] = int_bytes 0"
  by (simp add: string_bytes_def)

lemma int32_0: "int32 0"
  by (simp add: int32_def)

lemma readMap_end:
  assumes "utf8_encode P [] = []"
  shows "readMap P (Suc n) order acc (cursor pre (string_bytes P [] @ 4 # post))
           = Some (Inr (JObj (fst acc) (snd acc), cursor (pre @ string_bytes P [] @ [4]) post))"
proof -
  have "\<exists>x. readCachedString P order (cursor pre (int_bytes 0 @ 4 # post))
          = Inr (x, cursor (pre @ int_bytes 0) (4 # post))"
    using readBytes_written [of "[]" "pre @ int_bytes 0" "4 # post"]
    by (simp add: readCachedString_def readString_def readInt_written [OF int32_0])
  then obtain x where "readCachedString P order (cursor pre (int_bytes 0 @ 4 # post))
          = Inr (x, cursor (pre @ int_bytes 0) (4 # post))"
    by blast
  then show ?thesis
    by (simp add: string_bytes_empty [OF assms] readSignedByte_cursor)
qed

lemma readMap_scalar:
  assumes "readCachedString P order (cursor pre (kb @ t # payload @ post))
             = Inr (Some k, cursor (pre @ kb) (t # payload @ post))"
    and "sint t \<noteq> 4" and "sint t \<noteq> 3"
    and "read_scalar P order (sint t) (cursor (pre @ kb @ [t]) (payload @ post))
             = Some (Inr (v, cursor (pre @ kb @ t # payload) post))"
  shows "readMap P (Suc n) order acc (cursor pre (kb @ t # payload @ post))
           = readMap P n order (obj_assign k v acc) (cursor (pre @ kb @ t # payload) post)"
  using assms by (simp add: readSignedByte_cursor to_key_def)

lemma readMap_nested:
  assumes "readCachedString P order (cursor pre (kb @ 3 # inner @ post))
             = Inr (Some k, cursor (pre @ kb) (3 # inner @ post))"
    and "readMap P n order ([], None) (cursor (pre @ kb @ [3]) (inner @ post))
             = Some (Inr (v, cursor (pre @ kb @ 3 # inner) post))"
  shows "readMap P (Suc n) order acc (cursor pre (kb @ 3 # inner @ post))
           = readMap P n order (obj_assign k v acc) (cursor (pre @ kb @ 3 # inner) post)"
  using assms by (simp add: readSignedByte_cursor to_key_def)

lemma readMap_scalar_entry:
  assumes "cache_ok (cache, order)" and "length order < 2147483648" and "has_own cache k"
    and vb: "value_bytes P toBil cache v = t # payload" and "sint t \<noteq> 4" and "sint t \<noteq> 3"
    and rs: "\<And>pre post. read_scalar P order (sint t) (cursor pre (payload @ post))
                = Some (Inr (v', cursor (pre @ payload) post))"
  shows "readMap P (Suc n) order acc (cursor pre (ref_bytes cache k @ value_bytes P toBil cache v @ post))
           = readMap P n order (obj_assign k v' acc)
               (cursor (pre @ ref_bytes cache k @ value_bytes P toBil cache v) post)"
proof -
  have key: "readCachedString P order (cursor pre (ref_bytes cache k @ t # payload @ post))
               = Inr (Some k, cursor (pre @ ref_bytes cache k) (t # payload @ post))"
    by (rule readCachedString_ref [OF assms(1,3,2)])
  have "read_scalar P order (sint t) (cursor (pre @ ref_bytes cache k @ [t]) (payload @ post))
          = Some (Inr (v', cursor (pre @ ref_bytes cache k @ t # payload) post))"
    using rs [of "pre @ ref_bytes cache k @ [t]" post] by simp
  from readMap_scalar [OF key assms(5,6) this] show ?thesis
    by (simp add: vb)
qed

lemma value_in_mode_tagged [simp]:
  "value_in_mode toBil (tagged t x) = tagged t x"
  "value_in_mode toBil tagged_null = tagged_null"
  by (simp_all add: tagged_def tagged_null_def)

lemma skipped_in_bil_simps [simp]:
  "skipped_in_bil (tagged t x) \<longleftrightarrow> t = 12 \<or> t = 11"
  "skipped_in_bil tagged_null"
  "\<not> skipped_in_bil (JNum n)" "\<not> skipped_in_bil (JStr s)" "\<not> skipped_in_bil (JBool b)"
  by (simp_all add: skipped_in_bil_def tagged_def tagged_null_def is_object_def)

lemma read_back:
  assumes ok: "cache_ok (cache, order)" and len: "length order < 2147483648"
  shows "utf8_encode P [] = [] \<Longrightarrow> wf_value P v \<Longrightarrow> \<forall>s\<in>set (value_strings v). has_own cache s \<Longrightarrow>
         \<not> (toBil \<and> skipped_in_bil v) \<Longrightarrow> has_own cache k \<Longrightarrow> value_fuel v \<le> n \<Longrightarrow>
         readMap P (Suc n) order acc (cursor pre (ref_bytes cache k @ value_bytes P toBil cache v @ post))
           = readMap P n order (obj_assign k (value_in_mode toBil v) acc)
               (cursor (pre @ ref_bytes cache k @ value_bytes P toBil cache v) post)"
    and "utf8_encode P [] = [] \<Longrightarrow> wf_props P ps \<Longrightarrow> \<forall>s\<in>set (props_strings ps). has_own cache s \<Longrightarrow>
         canonical_keys (map fst (fst acc') @ map fst (props_in_mode toBil ps)) \<Longrightarrow>
         readMap P m order (fst acc' @ props_in_mode toBil ps, snd acc')
           (cursor (pre' @ map_bytes P toBil cache ps) post') = Some res \<Longrightarrow>
         m + props_fuel ps \<le> n' \<Longrightarrow>
         readMap P n' order acc' (cursor pre' (map_bytes P toBil cache ps @ post')) = Some res"
proof (induction P v and P ps arbitrary: k n acc pre post and acc' pre' post' m n' res
    rule: wf_value_wf_props.induct)
  case (1 P n0)
  then have i: "int32 n0" by simp
  show ?case
    using readMap_scalar_entry [where v'="JNum n0" and P=P and toBil=toBil, OF ok len "1.prems"(5) value_bytes_forms(1)]
      read_scalar_num [OF i]
    by simp
next
  case (2 P s)
  then have own: "has_own cache s" by simp
  show ?case
    using readMap_scalar_entry [where v'="JStr s" and P=P and toBil=toBil, OF ok len "2.prems"(5) value_bytes_str [OF ok own]]
      read_scalar_str [OF ok own len]
    by simp
next
  case (3 P b)
  show ?case
    using readMap_scalar_entry [where v'="JBool b" and P=P and toBil=toBil, OF ok len "3.prems"(5) value_bytes_forms(2)]
      read_scalar_bool [of P order _ b]
    by (cases b) simp_all
next
  case (4 P ps pr)
  show ?case
  proof (cases "wf_tagged P (JObj ps pr)")
    case True
    then show ?thesis
    proof (cases rule: wf_tagged_cases)
      case null
      show ?thesis
        using readMap_scalar_entry [where v'="tagged_null" and P=P and toBil=toBil, OF ok len "4.prems"(5) value_bytes_forms(3)]
          read_scalar_null
        by (simp add: null)
    next
      case (float f)
      show ?thesis
        using readMap_scalar_entry [where v'="tagged CFLOAT (JFloat f)" and P=P and toBil=toBil, OF ok len "4.prems"(5) value_bytes_forms(4)]
          read_scalar_float
        by (simp add: float)
    next
      case (string s)
      show ?thesis
        using readMap_scalar_entry [where v'="tagged CSTRING (JStr s)" and P=P and toBil=toBil, OF ok len "4.prems"(5) value_bytes_forms(5)]
          read_scalar_string [OF string(2)]
        by (simp add: string(1))
    next
      case (color h)
      show ?thesis
        using readMap_scalar_entry [where v'="tagged CCOLOR (JStr h)" and P=P and toBil=toBil, OF ok len "4.prems"(5) value_bytes_forms(6)]
          read_scalar_color [OF color(2,3)]
        by (simp add: color(1))
    next
      case (rect ns)
      show ?thesis
        using readMap_scalar_entry [where v'="tagged RECT32 (JArr (map JNum ns))" and P=P and toBil=toBil, OF ok len "4.prems"(5) value_bytes_forms(7)]
          read_scalar_rect [OF rect(2,3)]
        by (simp add: rect(1))
    qed
  next
    case False
    with "4.prems" have pr: "pr = None" and vt: "map_of ps ''ValueType'' = None"
      and ck: "canonical_keys (map fst ps)" and wf: "wf_props P ps"
      by simp_all
    from "4.prems"(3) vt pr have st: "\<forall>s\<in>set (props_strings ps). has_own cache s"
      by simp
    from "4.prems"(6) obtain n1 where n: "n = Suc n1" and fuel: "props_fuel ps \<le> n1"
      by (cases n) auto
    note enc0 = "4.prems"(1)
    let ?mb = "map_bytes P toBil cache ps"
    let ?kb = "ref_bytes cache k"
    let ?inner = "?mb @ string_bytes P [] @ [4]"
    have vb: "value_bytes P toBil cache (JObj ps pr) = 3 # ?inner"
      by (simp add: pr value_bytes_map [OF ok wf st vt])
    have vm: "value_in_mode toBil (JObj ps pr) = JObj (props_in_mode toBil ps) None"
      by (simp add: pr vt)
    have key: "readCachedString P order (cursor pre (?kb @ 3 # ?inner @ post))
                 = Inr (Some k, cursor (pre @ ?kb) (3 # ?inner @ post))"
      by (rule readCachedString_ref [OF ok "4.prems"(5) len])
    have fin: "readMap P (Suc 0) order (fst ([], None) @ props_in_mode toBil ps, snd ([], None))
                 (cursor ((pre @ ?kb @ [3]) @ ?mb) (string_bytes P [] @ 4 # post))
               = Some (Inr (JObj (props_in_mode toBil ps) None,
                            cursor (pre @ ?kb @ 3 # ?inner) post))"
      using readMap_end [OF enc0, of 0 order "(props_in_mode toBil ps, None)"
          "(pre @ ?kb @ [3]) @ ?mb" post]
      by simp
    have can: "canonical_keys (map fst (fst ([], None)) @ map fst (props_in_mode toBil ps))"
      using canonical_props_in_mode [OF ck] by simp
    have "readMap P n order ([], None) (cursor (pre @ ?kb @ [3]) (?mb @ string_bytes P [] @ 4 # post))
            = Some (Inr (JObj (props_in_mode toBil ps) None, cursor (pre @ ?kb @ 3 # ?inner) post))"
      by (rule "4.IH" [OF enc0 wf st can fin]) (use n fuel in simp)
    then have inner: "readMap P n order ([], None) (cursor (pre @ ?kb @ [3]) (?inner @ post))
            = Some (Inr (JObj (props_in_mode toBil ps) None, cursor (pre @ ?kb @ 3 # ?inner) post))"
      by simp
    from readMap_nested [OF key inner, of acc] show ?thesis
      by (simp only: vb vm append_assoc append.simps)
  qed
next
  case (9 P)
  then show ?case
    using readMap_mono [of P m order acc' "cursor pre' post'" res n'] by simp
next
  case (10 P k0 v0 ps)
  note enc0 = "10.prems"(1)
  from "10.prems"(2,3) have v: "wf_value P v0" and ps: "wf_props P ps"
    and sk: "has_own cache k0" and sv: "\<forall>s\<in>set (value_strings v0). has_own cache s"
    and sps: "\<forall>s\<in>set (props_strings ps). has_own cache s"
    by simp_all
  note mb = map_bytes_Cons [OF ok "10.prems"(2,3), of toBil]
  show ?case
  proof (cases "toBil \<and> skipped_in_bil v0")
    case True
    then have pm: "props_in_mode toBil ((k0, v0) # ps) = props_in_mode toBil ps"
      by simp
    from True mb have mbe: "map_bytes P toBil cache ((k0, v0) # ps) = map_bytes P toBil cache ps"
      by simp
    show ?thesis
      unfolding mbe
      by (rule "10.IH"(2) [OF enc0 ps sps]) (use "10.prems"(4,5,6) in \<open>simp_all only: pm mbe\<close>, simp)
  next
    case False
    let ?v = "value_in_mode toBil v0"
    let ?kb = "ref_bytes cache k0"
    let ?vb = "value_bytes P toBil cache v0"
    let ?mb = "map_bytes P toBil cache ps"
    from False have pm: "props_in_mode toBil ((k0, v0) # ps) = (k0, ?v) # props_in_mode toBil ps"
      by auto
    from False mb have mbe: "map_bytes P toBil cache ((k0, v0) # ps) = ?kb @ ?vb @ ?mb"
      by auto
    from "10.prems"(6) obtain n1 where n': "n' = Suc n1" and f1: "value_fuel v0 \<le> n1"
      and f2: "m + props_fuel ps \<le> n1"
      by (cases n') auto
    from "10.prems"(4) have can: "canonical_keys (map fst (fst acc') @ k0 # map fst (props_in_mode toBil ps))"
      unfolding pm by simp
    from obj_assign_append [OF canonical_keys_middle [OF can], of ?v "snd acc'"]
    have oa: "obj_assign k0 ?v acc' = (fst acc' @ [(k0, ?v)], snd acc')"
      by simp
    have step: "readMap P (Suc n1) order acc' (cursor pre' (?kb @ ?vb @ ?mb @ post'))
        = readMap P n1 order (obj_assign k0 ?v acc') (cursor (pre' @ ?kb @ ?vb) (?mb @ post'))"
      by (rule "10.IH"(1) [OF enc0 v sv False sk f1])
    have rest: "readMap P n1 order (fst acc' @ [(k0, ?v)], snd acc') (cursor (pre' @ ?kb @ ?vb) (?mb @ post'))
        = Some res"
    proof (rule "10.IH"(2) [OF enc0 ps sps _ _ f2])
      show "canonical_keys (map fst (fst (fst acc' @ [(k0, ?v)], snd acc')) @ map fst (props_in_mode toBil ps))"
        using can by simp
      show "readMap P m order
              (fst (fst acc' @ [(k0, ?v)], snd acc') @ props_in_mode toBil ps,
               snd (fst acc' @ [(k0, ?v)], snd acc'))
              (cursor ((pre' @ ?kb @ ?vb) @ ?mb) post') = Some res"
        using "10.prems"(5) unfolding pm mbe by simp
    qed
    show ?thesis
      using step rest by (simp add: mbe n' oa)
  qed
qed simp_all

subsection \<open>The cache that the collector builds\<close>

lemma has_own_props_set: "has_own (props_set k v ps) s \<longleftrightarrow> s = k \<or> has_own ps s"
  by (simp add: has_own_def map_of_props_set)

lemma has_own_cache_add: "has_own (fst st) s \<Longrightarrow> has_own (fst (cache_add k st)) s"
  by (simp add: cache_add_def has_own_props_set)

lemma cache_add_new: "k \<notin> set object_prototype_keys \<Longrightarrow> has_own (fst (cache_add k st)) k"
  by (simp add: cache_add_def in_obj_def has_own_props_set)

lemma cache_add_strings:
  "string_ok P k \<Longrightarrow> list_all (string_ok P) (snd st) \<Longrightarrow> list_all (string_ok P) (snd (cache_add k st))"
  by (simp add: cache_add_def)

lemma collect_mono:
  "has_own (fst st) s \<Longrightarrow> has_own (fst (collectStringsInOrder v st)) s"
  "has_own (fst st) s \<Longrightarrow> has_own (fst (collect_items xs st)) s"
  "has_own (fst st) s \<Longrightarrow> has_own (fst (collect_props ps st)) s"
proof (induction v st and xs st and ps st rule: collectStringsInOrder_collect_items_collect_props.induct)
  case (12 key val ps st)
  show ?case
    using "12.prems" "12.IH"
    by (auto simp add: Let_def has_own_cache_add split: jsval.splits)
qed simp_all

lemma collect_props_Cons:
  "collect_props ((k, v) # ps) st = collect_props ps (collect_props [(k, v)] st)"
  by (simp add: Let_def)

lemma collect_props_scalar:
  "collect_props [(k, JNum n)] st = cache_add k st"
  "collect_props [(k, JBool b)] st = cache_add k st"
  "collect_props [(k, JStr s)] st = cache_add s (cache_add k st)"
  "collect_props [(k, tagged_null)] st = cache_add k st"
  "collect_props [(k, tagged CFLOAT (JFloat f))] st = cache_add k st"
  "collect_props [(k, tagged CSTRING (JStr s))] st = cache_add s (cache_add k st)"
  "collect_props [(k, tagged CCOLOR (JStr h))] st = cache_add k st"
  "collect_props [(k, tagged RECT32 (JArr (map JNum ns)))] st = cache_add k st"
  by (simp_all add: Let_def is_object_def tagged_def tagged_null_def)

lemma collect_props_map:
  "map_of ps ''ValueType'' = None \<Longrightarrow>
   collect_props [(k, JObj ps None)] st = collect_props ps (cache_add k st)"
  by (simp add: Let_def is_object_def)

lemma value_strings_tagged [simp]:
  "value_strings (tagged t x) = []" "value_strings tagged_null = []"
  by (simp_all add: tagged_def tagged_null_def)

lemma collect_wf:
  "cached_ok P k \<Longrightarrow> wf_value P v \<Longrightarrow> list_all (string_ok P) (snd st) \<Longrightarrow>
     list_all (string_ok P) (snd (collect_props [(k, v)] st))
     \<and> (\<forall>s\<in>set (k # value_strings v). has_own (fst (collect_props [(k, v)] st)) s)"
  "wf_props P ps \<Longrightarrow> list_all (string_ok P) (snd st') \<Longrightarrow>
     list_all (string_ok P) (snd (collect_props ps st'))
     \<and> (\<forall>s\<in>set (props_strings ps). has_own (fst (collect_props ps st')) s)"
proof (induction P v and P ps arbitrary: k st and st' rule: wf_value_wf_props.induct)
  case (1 P n)
  then show ?case
    by (simp add: collect_props_scalar cache_add_strings cache_add_new cached_ok_def del: collect_props.simps)
next
  case (2 P s)
  then show ?case
    by (simp add: collect_props_scalar cache_add_strings cache_add_new cached_ok_def
        has_own_cache_add del: collect_props.simps)
next
  case (3 P b)
  then show ?case
    by (simp add: collect_props_scalar cache_add_strings cache_add_new cached_ok_def del: collect_props.simps)
next
  case (4 P ps pr)
  from "4.prems"(1) have k: "string_ok P k" "k \<notin> set object_prototype_keys"
    by (simp_all add: cached_ok_def)
  note st1 = cache_add_strings [OF k(1) "4.prems"(3)]
  show ?case
  proof (cases "wf_tagged P (JObj ps pr)")
    case True
    then show ?thesis
    proof (cases rule: wf_tagged_cases)
      case null
      then show ?thesis
        using st1 k by (simp add: collect_props_scalar cache_add_new del: collect_props.simps)
    next
      case (float f)
      then show ?thesis
        using st1 k by (simp add: collect_props_scalar cache_add_new del: collect_props.simps)
    next
      case (string s)
      then show ?thesis
        using st1 k
        by (simp add: collect_props_scalar cache_add_new cache_add_strings has_own_cache_add del: collect_props.simps)
    next
      case (color h)
      then show ?thesis
        using st1 k by (simp add: collect_props_scalar cache_add_new del: collect_props.simps)
    next
      case (rect ns)
      then show ?thesis
        using st1 k by (simp add: collect_props_scalar cache_add_new del: collect_props.simps)
    qed
  next
    case False
    with "4.prems" have pr: "pr = None" and vt: "map_of ps ''ValueType'' = None"
      and wf: "wf_props P ps"
      by simp_all
    have c: "collect_props [(k, JObj ps pr)] st = collect_props ps (cache_add k st)"
      by (simp only: pr collect_props_map [OF vt])
    have vs: "value_strings (JObj ps pr) = props_strings ps"
      by (simp add: pr vt)
    from "4.IH" [OF wf st1] collect_mono(3) [OF cache_add_new [OF k(2)], of ps st]
    show ?thesis
      by (simp only: c vs) simp
  qed
next
  case (10 P k0 v0 ps)
  from "10.prems"(1) have k: "cached_ok P k0" and v: "wf_value P v0" and ps: "wf_props P ps"
    by simp_all
  let ?st1 = "collect_props [(k0, v0)] st'"
  note a = "10.IH"(1) [OF k v "10.prems"(2)]
  note b = "10.IH"(2) [OF ps conjunct1 [OF a]]
  have c: "collect_props ((k0, v0) # ps) st' = collect_props ps ?st1"
    by (rule collect_props_Cons)
  from a have "\<forall>s\<in>set (k0 # value_strings v0). has_own (fst (collect_props ps ?st1)) s"
    using collect_mono(3) by blast
  with b show ?case
    by (simp only: c) auto
qed simp_all

lemma collect_body:
  assumes "wf_props P ps"
  shows "cache_ok (collect_props ps ([], []))"
    and "list_all (string_ok P) (snd (collect_props ps ([], [])))"
    and "\<forall>s\<in>set (props_strings ps). has_own (fst (collect_props ps ([], []))) s"
  using collect_cache_ok(3) [OF cache_ok_empty, of ps] collect_wf(2) [OF assms, of "([], [])"]
  by simp_all

subsection \<open>The script block of a well-formed header\<close>

lemma write_length_step:
  "len < 4294967296 \<Longrightarrow>
   write_length w len =
     (if len div 128 \<noteq> 0 then write_length (w @ [word_of_int (int (len mod 128) + 128)]) (len div 128)
      else w @ [word_of_int (int (len mod 128))])"
  by (subst write_length.simps) (simp add: Let_def writeByte_def)

lemma write_length_append:
  "len < 4294967296 \<Longrightarrow> write_length w len = w @ write_length [] len"
proof (induction len arbitrary: w rule: less_induct)
  case (less len)
  show ?case
  proof (cases "len div 128 = 0")
    case True
    then show ?thesis
      by (simp only: write_length_step [OF less.prems]) simp
  next
    case False
    then have lt: "len div 128 < len" and b: "len div 128 < 4294967296"
      using less.prems by simp_all
    let ?b = "word_of_int (int (len mod 128) + 128) :: byte"
    have "write_length w len = write_length (w @ [?b]) (len div 128)"
      using False by (simp only: write_length_step [OF less.prems] if_True simp_thms)
    also have "\<dots> = (w @ [?b]) @ write_length [] (len div 128)"
      by (rule less.IH [OF lt b])
    also have "\<dots> = w @ write_length [?b] (len div 128)"
      by (simp only: less.IH [OF lt b, of "[?b]"] append_assoc)
    also have "write_length [?b] (len div 128) = write_length [] len"
      using False by (simp only: write_length_step [OF less.prems, of "[]"] if_True simp_thms append_Nil)
    finally show ?thesis .
  qed
qed

lemma sint_continuation:
  "0 \<le> k \<Longrightarrow> k < 128 \<Longrightarrow> sint (word_of_int (k + 128) :: byte) = k - 128"
  by (simp only: signed_of_int) (simp add: signed_take_bit_eq_take_bit_shift take_bit_eq_mod)

lemma and_7f: "(x::int) AND 127 = x mod 128"
proof -
  have "(127::int) = mask 7"
    by (simp add: mask_eq_exp_minus_1)
  then show ?thesis
    by (simp only: take_bit_eq_mask [symmetric] take_bit_eq_mod) simp
qed

lemma shl32_small:
  assumes "0 \<le> v" and "v * 2 ^ s < 2147483648" and "s < 32"
  shows "shl32 v s = v * 2 ^ s"
proof -
  have pb: "push_bit s (word_of_int v :: 32 word) = word_of_int (v * 2 ^ s)"
    by (simp add: push_bit_eq_mult)
  have "0 \<le> v * 2 ^ s"
    using assms(1) by simp
  then have i: "int32 (v * 2 ^ s)"
    using assms(2) by (simp add: int32_def)
  from assms(3) have m: "s mod 32 = s"
    by simp
  show ?thesis
    by (simp only: shl32_def m pb sint_int32 [OF i])
qed

lemma readBinaryLength_written:
  "int len * 2 ^ shift < 2147483648 \<Longrightarrow> shift < 32 \<Longrightarrow>
   readBinaryLength acc shift (cursor pre (write_length [] len @ post))
     = Inr (acc + int len * 2 ^ shift, cursor (pre @ write_length [] len) post)"
proof (induction len arbitrary: acc shift pre rule: less_induct)
  case (less len)
  have "int len * 1 \<le> int len * 2 ^ shift"
    by (rule mult_left_mono) simp_all
  with less.prems(1) have len: "len < 4294967296"
    by simp
  have m: "int (len mod 128) * 2 ^ shift \<le> int len * 2 ^ shift"
    by (rule mult_right_mono) simp_all
  show ?case
  proof (cases "len div 128 = 0")
    case True
    then have small: "len < 128"
      by (simp add: div_eq_0_iff)
    then have w: "write_length [] len = [word_of_int (int len)]"
      by (simp only: write_length_step [OF len]) simp
    have s: "sint (word_of_int (int len) :: byte) = int len"
      using small sint_int8 [of "int len"] by simp
    have sh: "shl32 (int len) shift = int len * 2 ^ shift"
      using less.prems by (simp add: shl32_small)
    have a: "int len AND 127 = int len"
      using small by (simp add: and_7f)
    show ?thesis
      apply (subst readBinaryLength.simps)
      apply (simp only: w append_Cons append_Nil readSignedByte_cursor s sum.case prod.case Let_def a
          if_True simp_thms sh)
      done
  next
    case False
    let ?b = "word_of_int (int (len mod 128) + 128) :: byte"
    let ?q = "len div 128"
    from False have lt: "?q < len"
      by simp
    have q4: "?q < 4294967296"
      using len by simp
    have w: "write_length [] len = ?b # write_length [] ?q"
      using False write_length_append [OF q4, of "[?b]"]
      by (simp only: write_length_step [OF len, of "[]"] if_True simp_thms append_Nil) simp
    have s: "sint ?b = int (len mod 128) - 128"
      by (rule sint_continuation) simp_all
    have a: "(int (len mod 128) - 128) AND 127 = int (len mod 128)"
      by (simp add: and_7f)
    have split: "int len = int (len mod 128) + int ?q * 128"
      by (simp add: zmod_int zdiv_int)
    have "int ?q * 2 ^ (shift + 7) \<le> int len * 2 ^ shift"
    proof -
      have "int ?q * 2 ^ (shift + 7) = (int ?q * 128) * 2 ^ shift"
        by (simp add: power_add)
      also have "\<dots> \<le> int len * 2 ^ shift"
        by (rule mult_right_mono) (simp_all add: zdiv_int)
      finally show ?thesis .
    qed
    with less.prems(1) have q: "int ?q * 2 ^ (shift + 7) < 2147483648"
      by simp
    from False have one: "1 \<le> int ?q"
      by simp
    have "(1::int) * 2 ^ (shift + 7) \<le> int ?q * 2 ^ (shift + 7)"
      by (rule mult_right_mono [OF one]) simp
    then have "(2::int) ^ (shift + 7) \<le> int ?q * 2 ^ (shift + 7)"
      by (simp only: mult_1)
    from this q have "(2::int) ^ (shift + 7) < 2147483648"
      by (rule le_less_trans)
    then have "(2::int) ^ (shift + 7) < 2 ^ 31"
      by simp
    then have sh7: "shift + 7 < 32"
      by (simp only: power_strict_increasing_iff)
    have sh: "shl32 (int (len mod 128)) shift = int (len mod 128) * 2 ^ shift"
    proof (rule shl32_small)
      show "0 \<le> int (len mod 128)"
        by simp
      from m less.prems(1) show "int (len mod 128) * 2 ^ shift < 2147483648"
        by (rule le_less_trans)
      show "shift < 32"
        by (rule less.prems(2))
    qed
    have rec: "readBinaryLength (acc + int (len mod 128) * 2 ^ shift) (shift + 7)
                 (cursor (pre @ [?b]) (write_length [] ?q @ post))
               = Inr (acc + int (len mod 128) * 2 ^ shift + int ?q * 2 ^ (shift + 7),
                      cursor ((pre @ [?b]) @ write_length [] ?q) post)"
      by (rule less.IH [OF lt q sh7])
    have sum: "acc + int (len mod 128) * 2 ^ shift + int ?q * 2 ^ (shift + 7) = acc + int len * 2 ^ shift"
      by (subst split) (simp add: power_add algebra_simps)
    have ne: "int (len mod 128) - 128 \<noteq> int (len mod 128)"
      by simp
    show ?thesis
      apply (subst readBinaryLength.simps)
      apply (simp only: w append_Cons readSignedByte_cursor s sum.case prod.case Let_def a ne if_False sh)
      apply (simp only: rec sum append_assoc append_Cons append_Nil)
      done
  qed
qed

lemma writeBinaryString_append:
  "length s < 4294967296 \<Longrightarrow> writeBinaryString P w s = w @ writeBinaryString P [] s"
  using write_length_append [of "length s" w]
  by (simp add: writeBinaryString_def writeBytes_def del: write_length.simps)

lemma readBinaryString_written:
  assumes "script_ok P s"
  shows "readBinaryString P (cursor pre (writeBinaryString P [] s @ post))
           = Inr (s, cursor (pre @ writeBinaryString P [] s) post)"
proof -
  from assms have l: "int (length s) * 2 ^ 0 < 2147483648" and e: "length (utf8_encode P s) = length s"
    and d: "utf8_decode P (utf8_encode P s) = s"
    by (simp_all add: script_ok_def)
  have "readBinaryLength 0 0 (cursor pre (write_length [] (length s) @ utf8_encode P s @ post))
          = Inr (int (length s), cursor (pre @ write_length [] (length s)) (utf8_encode P s @ post))"
    using readBinaryLength_written [OF l, of 0 pre "utf8_encode P s @ post"] by simp
  then show ?thesis
    using readBytes_written [of "utf8_encode P s" "pre @ write_length [] (length s)" post]
    by (simp add: readBinaryString_def writeBinaryString_def writeBytes_def e d)
qed

lemma script_at_length:
  "list_all (script_ok P) scripts \<Longrightarrow> length (script_at scripts i) < 4294967296"
  by (auto simp add: script_at_def list_all_length script_ok_def)

lemma script_at_ok:
  "list_all (script_ok P) scripts \<Longrightarrow> i < length scripts \<Longrightarrow> script_ok P (script_at scripts i)"
  by (simp add: script_at_def list_all_length)

lemma write_variant_scripts_append:
  assumes "list_all (script_ok P) scripts"
  shows "write_variant_scripts P scripts w k vs = w @ write_variant_scripts P scripts [] k vs"
proof (induction vs arbitrary: w k)
  case Nil
  show ?case by simp
next
  case (Cons v vs)
  note l = script_at_length [OF assms, of k]
  have a: "write_variant_scripts P scripts w' k (v # vs)
          = w' @ variant_bytes v @ writeBinaryString P [] (script_at scripts k)
            @ write_variant_scripts P scripts [] (Suc k) vs" for w'
  proof -
    have "write_variant_scripts P scripts w' k (v # vs)
          = writeBinaryString P (writeVariant w' v) (script_at scripts k)
            @ write_variant_scripts P scripts [] (Suc k) vs"
      by (simp only: write_variant_scripts.simps
          Cons.IH [of "writeBinaryString P (writeVariant w' v) (script_at scripts k)"])
    also have "writeBinaryString P (writeVariant w' v) (script_at scripts k)
          = w' @ variant_bytes v @ writeBinaryString P [] (script_at scripts k)"
      by (simp only: writeVariant_bytes writeBinaryString_append [OF l, of P "w' @ variant_bytes v"]
          append_assoc)
    finally show ?thesis
      by (simp only: append_assoc)
  qed
  show ?case
    by (simp only: a append_Nil)
qed

lemma write_variant_scripts_Cons:
  assumes "list_all (script_ok P) scripts"
  shows "write_variant_scripts P scripts [] k (v # vs)
           = variant_bytes v @ writeBinaryString P [] (script_at scripts k)
             @ write_variant_scripts P scripts [] (Suc k) vs"
proof -
  note l = script_at_length [OF assms, of k]
  have "write_variant_scripts P scripts [] k (v # vs)
          = writeBinaryString P (writeVariant [] v) (script_at scripts k)
            @ write_variant_scripts P scripts [] (Suc k) vs"
    by (simp only: write_variant_scripts.simps
        write_variant_scripts_append [OF assms, of "writeBinaryString P (writeVariant [] v) (script_at scripts k)"])
  then show ?thesis
    by (simp only: writeVariant_bytes append_Nil writeBinaryString_append [OF l, of P "variant_bytes v"]
        append_assoc)
qed

lemma readVariantFromStream_written:
  "variant_ok v \<Longrightarrow>
   readVariantFromStream (cursor pre (variant_bytes v @ post)) = Inr (v, cursor (pre @ variant_bytes v) post)"
  by (cases v)
     (simp add: variant_ok_def readVariantFromStream_def variant_bytes_def scale_or_1_def int_or_def
        readFloat_written readInt_written)

lemma read_variant_scripts:
  assumes "list_all (script_ok P) scripts"
  shows "list_all variant_ok vs \<Longrightarrow> k + length vs \<le> length scripts \<Longrightarrow>
         read_n (length vs) (\<lambda>s. rbind (readVariantFromStream s) (\<lambda>(v, s'). readBinaryString P s'))
           (cursor pre (write_variant_scripts P scripts [] k vs @ post))
         = Inr (map (script_at scripts) [k..<k + length vs],
                cursor (pre @ write_variant_scripts P scripts [] k vs) post)"
proof (induction vs arbitrary: k pre)
  case Nil
  show ?case by simp
next
  case (Cons v vs)
  let ?s = "script_at scripts k"
  let ?rest = "write_variant_scripts P scripts [] (Suc k) vs"
  from Cons.prems have v: "variant_ok v" and vs: "list_all variant_ok vs"
    and k: "k < length scripts" and k1: "Suc k + length vs \<le> length scripts"
    by simp_all
  note s = script_at_ok [OF assms k]
  have a: "readVariantFromStream (cursor pre (variant_bytes v @ writeBinaryString P [] ?s @ ?rest @ post))
        = Inr (v, cursor (pre @ variant_bytes v) (writeBinaryString P [] ?s @ ?rest @ post))"
    by (rule readVariantFromStream_written [OF v])
  have b: "readBinaryString P (cursor (pre @ variant_bytes v) (writeBinaryString P [] ?s @ ?rest @ post))
        = Inr (?s, cursor (pre @ variant_bytes v @ writeBinaryString P [] ?s) (?rest @ post))"
    using readBinaryString_written [OF s, of "pre @ variant_bytes v" "?rest @ post"]
    by (simp only: append_assoc)
  have c: "read_n (length vs) (\<lambda>s. rbind (readVariantFromStream s) (\<lambda>(v, s'). readBinaryString P s'))
             (cursor (pre @ variant_bytes v @ writeBinaryString P [] ?s) (?rest @ post))
           = Inr (map (script_at scripts) [Suc k..<Suc k + length vs],
                  cursor (pre @ variant_bytes v @ writeBinaryString P [] ?s @ ?rest) post)"
    using Cons.IH [OF vs k1, of "(pre @ variant_bytes v) @ writeBinaryString P [] ?s"]
    by (simp only: append_assoc)
  have u: "[k..<k + Suc (length vs)] = k # [Suc k..<Suc k + length vs]"
    by (subst upt_rec) simp
  show ?case
    by (simp only: write_variant_scripts_Cons [OF assms] length_Cons read_n.simps append_assoc a b c
        rbind_simps prod.case list.map u)
qed

lemma read_script_stream_written:
  assumes "list_all (script_ok P) scripts" and "list_all variant_ok vs"
    and "length scripts = Suc (length vs)" and "length vs < 2147483648"
  shows "read_script_stream P (cursor [] (script_stream P scripts vs))
           = Inr (scripts, cursor (script_stream P scripts vs) [])"
proof -
  let ?s = "script_at scripts 0"
  let ?g = "writeBinaryString P [] ?s"
  let ?n = "int_bytes (int (length vs))"
  let ?rest = "write_variant_scripts P scripts [] 1 vs"
  from assms(3) have s: "script_ok P ?s"
    by (intro script_at_ok [OF assms(1)]) simp
  have ss: "script_stream P scripts vs = ?g @ ?n @ ?rest"
    by (simp only: script_stream_def writeInt_bytes
        write_variant_scripts_append [OF assms(1), of "?g @ ?n" 1 vs] append_assoc)
  have a: "readBinaryString P (cursor [] (?g @ ?n @ ?rest @ [])) = Inr (?s, cursor ([] @ ?g) (?n @ ?rest @ []))"
    by (rule readBinaryString_written [OF s])
  have b: "readInt (cursor ([] @ ?g) (?n @ ?rest @ [])) = Inr (int (length vs), cursor (([] @ ?g) @ ?n) (?rest @ []))"
    by (rule readInt_written [OF int32_length [OF assms(4)]])
  have c: "read_n (length vs) (\<lambda>s. rbind (readVariantFromStream s) (\<lambda>(v, s'). readBinaryString P s'))
             (cursor (([] @ ?g) @ ?n) (?rest @ []))
           = Inr (map (script_at scripts) [1..<1 + length vs], cursor ((([] @ ?g) @ ?n) @ ?rest) [])"
    by (rule read_variant_scripts [OF assms(1,2)]) (simp add: assms(3))
  have "map (script_at scripts) [0..<length scripts] = scripts"
    by (rule nth_equalityI) (simp_all add: script_at_def)
  then have d: "?s # map (script_at scripts) [1..<1 + length vs] = scripts"
    by (simp add: assms(3) upt_conv_Cons del: upt_Suc)
  have "read_script_stream P (cursor [] (?g @ ?n @ ?rest @ []))
          = Inr (scripts, cursor ((([] @ ?g) @ ?n) @ ?rest) [])"
    by (simp only: read_script_stream_def a b c rbind_simps prod.case nat_int d)
  then show ?thesis
    by (simp only: ss append_Nil append_Nil2 append_assoc)
qed

lemma readScripts_written:
  assumes "list_all (script_ok P) scripts" and "list_all variant_ok vs"
    and "length scripts = Suc (length vs)" and "length vs < 2147483648"
    and "ungzip P (writeScripts P scripts vs) = Some (script_stream P scripts vs)"
    and "length (writeScripts P scripts vs) < 2147483648"
  shows "readScripts P (cursor pre (int_bytes (int (length (writeScripts P scripts vs)))
                                      @ writeScripts P scripts vs @ post))
           = Inr (scripts, cursor (pre @ int_bytes (int (length (writeScripts P scripts vs)))
                                      @ writeScripts P scripts vs) post)"
proof -
  have t: "try_read_scripts P (writeScripts P scripts vs) = Some scripts"
    by (simp add: try_read_scripts_def assms(5) cursor_start read_script_stream_written [OF assms(1-4)])
  show ?thesis
    using readBytes_written [of "writeScripts P scripts vs"
        "pre @ int_bytes (int (length (writeScripts P scripts vs)))" post]
    by (simp add: readScripts_def readInt_written [OF int32_length [OF assms(6)]] t)
qed

subsection \<open>The cache of the header\<close>

lemma keys_props_set: "set (map fst (props_set k v ps)) = insert k (set (map fst ps))"
  using has_own_props_set [of k v ps] by (auto simp add: has_own_iff)

lemma header_cache_add_inv:
  assumes "name_ok P s" and "cache_ok (cache, map fst cache)" and "list_all (string_ok P) (map fst cache)"
  shows "cache_ok (header_cache_add cache s, map fst (header_cache_add cache s))"
    and "list_all (string_ok P) (map fst (header_cache_add cache s))"
    and "has_own (header_cache_add cache s) (to_key s)"
    and "has_own cache x \<Longrightarrow> has_own (header_cache_add cache s) x"
proof -
  from assms(1) obtain n where s: "s = Some n" and n: "string_ok P n" "n \<notin> set object_prototype_keys"
    "\<not> is_array_index n"
    by (cases s) (auto simp add: name_ok_def cached_ok_def)
  show "has_own (header_cache_add cache s) (to_key s)"
    using n(2) by (simp add: s header_cache_add_def to_key_def in_obj_def has_own_props_set)
  show "has_own cache x \<Longrightarrow> has_own (header_cache_add cache s) x"
    by (simp add: header_cache_add_def has_own_props_set)
  show "list_all (string_ok P) (map fst (header_cache_add cache s))"
    using assms(3) n(1)
    by (simp add: header_cache_add_def list_all_iff keys_props_set s to_key_def del: set_map)
  show "cache_ok (header_cache_add cache s, map fst (header_cache_add cache s))"
  proof (cases "in_obj n cache")
    case True
    then show ?thesis
      using assms(2) by (simp add: header_cache_add_def s to_key_def)
  next
    case False
    then have "\<not> has_own cache n"
      by (simp add: in_obj_def)
    then have p: "props_set n (length cache) cache = cache @ [(n, length cache)]"
      using n(3) by (simp add: props_set_def)
    have "cache_add n (cache, map fst cache) = (cache @ [(n, length cache)], map fst cache @ [n])"
      using False by (simp add: cache_add_def p)
    with cache_ok_add [OF assms(2), of n] False show ?thesis
      by (simp add: header_cache_add_def s to_key_def p)
  qed
qed

lemma header_cache_add3_inv:
  assumes "control_ok P c" and "cache_ok (cache, map fst cache)" and "list_all (string_ok P) (map fst cache)"
  shows "cache_ok (header_cache_add3 cache c, map fst (header_cache_add3 cache c))"
    and "list_all (string_ok P) (map fst (header_cache_add3 cache c))"
    and "has_own (header_cache_add3 cache c) (to_key (Name c))"
    and "has_own (header_cache_add3 cache c) (to_key (JavaType c))"
    and "has_own (header_cache_add3 cache c) (to_key (DesignerType c))"
    and "has_own cache x \<Longrightarrow> has_own (header_cache_add3 cache c) x"
proof -
  from assms(1) have nm: "name_ok P (Name c)" "name_ok P (JavaType c)" "name_ok P (DesignerType c)"
    by (simp_all add: control_ok_def)
  note a = header_cache_add_inv [OF nm(1) assms(2,3)]
  note b = header_cache_add_inv [OF nm(2) a(1,2)]
  note c = header_cache_add_inv [OF nm(3) b(1,2)]
  show "cache_ok (header_cache_add3 cache c, map fst (header_cache_add3 cache c))"
    and "list_all (string_ok P) (map fst (header_cache_add3 cache c))"
    and "has_own (header_cache_add3 cache c) (to_key (Name c))"
    and "has_own (header_cache_add3 cache c) (to_key (JavaType c))"
    and "has_own (header_cache_add3 cache c) (to_key (DesignerType c))"
    and "has_own cache x \<Longrightarrow> has_own (header_cache_add3 cache c) x"
    unfolding header_cache_add3_def
    using a b c by blast+
qed

lemma header_cache_inv:
  "list_all (control_ok P) cs \<Longrightarrow> cache_ok (cache, map fst cache) \<Longrightarrow>
   list_all (string_ok P) (map fst cache) \<Longrightarrow>
   cache_ok (foldl header_cache_add3 cache cs, map fst (foldl header_cache_add3 cache cs))
   \<and> list_all (string_ok P) (map fst (foldl header_cache_add3 cache cs))
   \<and> (\<forall>x. has_own cache x \<longrightarrow> has_own (foldl header_cache_add3 cache cs) x)
   \<and> (\<forall>c\<in>set cs. has_own (foldl header_cache_add3 cache cs) (to_key (Name c))
         \<and> has_own (foldl header_cache_add3 cache cs) (to_key (JavaType c))
         \<and> has_own (foldl header_cache_add3 cache cs) (to_key (DesignerType c)))"
proof (induction cs arbitrary: cache)
  case Nil
  then show ?case by simp
next
  case (Cons c cs)
  from Cons.prems(1) have c: "control_ok P c" and cs: "list_all (control_ok P) cs"
    by simp_all
  note a = header_cache_add3_inv [OF c Cons.prems(2,3)]
  note b = Cons.IH [OF cs a(1,2)]
  from a(3-6) b show ?case
    by (simp del: set_map)
qed

subsection \<open>The control headers\<close>

lemma write_control_headers_bytes:
  assumes "cache_ok (cache, order)"
  shows "\<forall>c\<in>set cs. has_own cache (to_key (Name c)) \<and> has_own cache (to_key (JavaType c))
           \<and> has_own cache (to_key (DesignerType c)) \<and> control_ok P c \<Longrightarrow>
         write_control_headers P cache w cs = Inr (w @ concat (map (control_bytes cache) cs))"
proof (induction cs arbitrary: w)
  case Nil
  show ?case by simp
next
  case (Cons c cs)
  from Cons.prems have own: "has_own cache (to_key (Name c))" "has_own cache (to_key (JavaType c))"
    "has_own cache (to_key (DesignerType c))" and ok: "control_ok P c"
    by simp_all
  from ok obtain n j d where nm: "Name c = Some n" "JavaType c = Some j" "DesignerType c = Some d"
    by (auto simp add: control_ok_def name_ok_def split: option.splits)
  from own have own': "has_own cache n" "has_own cache j" "has_own cache d"
    by (simp_all add: nm to_key_def)
  have rest: "write_control_headers P cache w' cs = Inr (w' @ concat (map (control_bytes cache) cs))" for w'
    by (rule Cons.IH) (use Cons.prems in simp)
  have cb: "control_bytes cache c = ref_bytes cache n @ ref_bytes cache j @ ref_bytes cache d"
    by (simp add: control_bytes_def nm to_key_def)
  show ?case
    by (simp add: nm writeCachedString_hit [OF assms own'(1)] writeCachedString_hit [OF assms own'(2)]
        writeCachedString_hit [OF assms own'(3)] rest cb)
qed

lemma read_control_header_written:
  assumes "cache_ok (cache, order)" and "length order < 2147483648" and "control_ok P c"
    and "has_own cache (to_key (Name c))" and "has_own cache (to_key (JavaType c))"
    and "has_own cache (to_key (DesignerType c))"
  shows "read_control_header P order (cursor pre (control_bytes cache c @ post))
           = Inr (c, cursor (pre @ control_bytes cache c) post)"
proof -
  from assms(3) obtain n j d where nm: "Name c = Some n" "JavaType c = Some j" "DesignerType c = Some d"
    by (auto simp add: control_ok_def name_ok_def split: option.splits)
  from assms(4-6) have own: "has_own cache n" "has_own cache j" "has_own cache d"
    by (simp_all add: nm to_key_def)
  have c: "c = \<lparr>Name = Some n, JavaType = Some j, DesignerType = Some d\<rparr>"
    using nm by (cases c) simp
  have cb: "control_bytes cache c = ref_bytes cache n @ ref_bytes cache j @ ref_bytes cache d"
    by (simp add: control_bytes_def nm to_key_def)
  show ?thesis
    by (simp add: read_control_header_def cb
        readCachedString_ref [OF assms(1) own(1) assms(2)]
        readCachedString_ref [OF assms(1) own(2) assms(2)]
        readCachedString_ref [OF assms(1) own(3) assms(2)] c [symmetric])
qed

subsection \<open>The header of a well-formed document\<close>

lemma writeLayoutHeader_bytes:
  assumes "wf_header P h vs"
  shows "writeLayoutHeader P [] h vs
           = Inr (int_bytes (Version h) @ int_bytes (int (length (header_tail P h vs))) @ header_tail P h vs)"
proof -
  let ?cs = "ControlsHeaders h"
  define cache where "cache = foldl header_cache_add3 [] ?cs"
  from assms have ver: "3 \<le> Version h" and cs: "list_all (control_ok P) ?cs"
    and grid: "4 \<le> Version h \<Longrightarrow> GridSize h \<noteq> 0"
    by (simp_all add: wf_header_def split: if_splits)
  have inv: "cache_ok (cache, map fst cache)"
    and own: "\<forall>c\<in>set ?cs. has_own cache (to_key (Name c)) \<and> has_own cache (to_key (JavaType c))
                \<and> has_own cache (to_key (DesignerType c))"
    using header_cache_inv [OF cs, of "[]"] cache_ok_empty by (simp_all add: cache_def)
  from own cs have "\<forall>c\<in>set ?cs. has_own cache (to_key (Name c)) \<and> has_own cache (to_key (JavaType c))
                \<and> has_own cache (to_key (DesignerType c)) \<and> control_ok P c"
    by (simp add: list_all_iff)
  note temp = write_control_headers_bytes [OF inv this]
  from ver have v: "int_or (Version h) 4 = Version h"
    by (simp add: int_or_def)
  define tail where "tail = header_tail P h vs"
  have t: "(if 4 \<le> Version h then int_bytes (int_or (GridSize h) 10) else [])
         @ int_bytes (int (length cache)) @ concat (map (string_bytes P) (map fst cache))
         @ int_bytes (int (length ?cs)) @ concat (map (control_bytes cache) ?cs)
         @ int_bytes (int (length (Files h))) @ concat (map (string_bytes P) (Files h))
         @ int_bytes (int (length (writeScripts P (DesignerScript h) vs)))
         @ writeScripts P (DesignerScript h) vs = tail"
    using grid by (simp add: tail_def header_tail_def Let_def cache_def int_or_def)
  have u: "updateInt (int_bytes (Version h) @ int_bytes 0 @ tail) 4
             (int (length (int_bytes (Version h) @ int_bytes 0 @ tail)) - 4 - 4)
           = int_bytes (Version h) @ int_bytes (int (length tail)) @ tail"
    by (simp add: updateInt_def int_bytes_def)
  have "writeLayoutHeader P [] h vs
          = Inr (updateInt (int_bytes (Version h) @ int_bytes 0 @ tail) 4
                   (int (length (int_bytes (Version h) @ int_bytes 0 @ tail)) - 4 - 4))"
    unfolding t [symmetric]
    by (simp add: writeLayoutHeader_def Let_def v cache_def [symmetric] temp writeInt_bytes
        writeBytes_def
        foldl_write [where f = "writeString P" and enc = "string_bytes P", OF writeString_bytes])
  then have "writeLayoutHeader P [] h vs
          = Inr (int_bytes (Version h) @ int_bytes (int (length tail)) @ tail)"
    by (simp only: u)
  then show ?thesis
    by (simp only: tail_def)
qed

lemma skip_written:
  "length x = 4 \<Longrightarrow>
   (cursor pre (x @ post))\<lparr>offset := offset (cursor pre (x @ post)) + 4\<rparr> = cursor (pre @ x) post"
  by (simp add: cursor_def)

lemma readLayoutHeader_written:
  assumes "wf_header P h vs" and "list_all variant_ok vs" and "length vs < 2147483648"
    and "length x = 4"
  shows "readLayoutHeader P (cursor [] (int_bytes (Version h) @ x @ header_tail P h vs @ post))
           = Inr (h, cursor (int_bytes (Version h) @ x @ header_tail P h vs) post)"
proof -
  let ?cs = "ControlsHeaders h"
  define cache where "cache = foldl header_cache_add3 [] ?cs"
  define order where "order = map fst cache"
  define sb where "sb = writeScripts P (DesignerScript h) vs"
  from assms(1) have ver: "3 \<le> Version h" "int32 (Version h)" and cs: "list_all (control_ok P) ?cs"
    and grid: "if 4 \<le> Version h then int32 (GridSize h) else GridSize h = 10"
    and ncs: "length ?cs < 2147483648" and ncache: "length order < 2147483648"
    and files: "list_all (string_ok P) (Files h)" "length (Files h) < 2147483648"
    and scripts: "length (DesignerScript h) = Suc (length vs)" "list_all (script_ok P) (DesignerScript h)"
      "ungzip P (writeScripts P (DesignerScript h) vs) = Some (script_stream P (DesignerScript h) vs)"
      "length (writeScripts P (DesignerScript h) vs) < 2147483648"
    by (simp_all add: wf_header_def order_def cache_def split: if_splits)
  have inv: "cache_ok (cache, order)" and sok: "list_all (string_ok P) order"
    and own: "\<forall>c\<in>set ?cs. has_own cache (to_key (Name c)) \<and> has_own cache (to_key (JavaType c))
                \<and> has_own cache (to_key (DesignerType c))"
    using header_cache_inv [OF cs, of "[]"] cache_ok_empty by (simp_all add: cache_def order_def)
  define G where "G = (if 4 \<le> Version h then int_bytes (GridSize h) else [])"
  define C where "C = int_bytes (int (length order)) @ concat (map (string_bytes P) order)"
  define N where "N = concat (map (control_bytes cache) ?cs)"
  define F where "F = concat (map (string_bytes P) (Files h))"
  define S where "S = int_bytes (int (length sb)) @ sb"
  have tail: "header_tail P h vs
      = G @ C @ int_bytes (int (length ?cs)) @ N @ int_bytes (int (length (Files h))) @ F @ S"
    by (simp add: header_tail_def Let_def G_def C_def N_def F_def S_def cache_def order_def sb_def)
  have rv: "readInt (cursor [] (int_bytes (Version h) @ rest))
              = Inr (Version h, cursor (int_bytes (Version h)) rest)" for rest
    using readInt_written [OF ver(2), of "[]" rest] by simp
  have rg: "(if 4 \<le> Version h then readInt (cursor pre (G @ rest)) else Inr (10, cursor pre (G @ rest)))
              = Inr (GridSize h, cursor (pre @ G) rest)" for pre rest
    using grid by (simp add: G_def readInt_written)
  have rc: "loadStringsCache P (cursor pre (C @ rest)) = Inr (order, cursor (pre @ C) rest)" for pre rest
    using loadStringsCache_written [OF sok ncache, of pre rest] by (simp add: C_def)
  have rn: "read_n (length ?cs) (read_control_header P order) (cursor pre (N @ rest))
              = Inr (?cs, cursor (pre @ N) rest)" for pre rest
    unfolding N_def
  proof (rule read_n_written)
    fix c pre post
    assume c: "c \<in> set ?cs"
    with cs have "control_ok P c"
      by (simp add: list_all_iff)
    with own c show "read_control_header P order (cursor pre (control_bytes cache c @ post))
        = Inr (c, cursor (pre @ control_bytes cache c) post)"
      by (intro read_control_header_written [OF inv ncache]) simp_all
  qed
  have rf: "read_n (length (Files h)) (readString P) (cursor pre (F @ rest))
              = Inr (Files h, cursor (pre @ F) rest)" for pre rest
    unfolding F_def
  proof (rule read_n_written)
    fix s pre post
    assume "s \<in> set (Files h)"
    with files(1) have "string_ok P s"
      by (simp add: list_all_iff)
    then show "readString P (cursor pre (string_bytes P s @ post))
        = Inr (s, cursor (pre @ string_bytes P s) post)"
      by (rule readString_written)
  qed
  have rs: "readScripts P (cursor pre (S @ rest)) = Inr (DesignerScript h, cursor (pre @ S) rest)"
    for pre rest
    using readScripts_written [OF scripts(2) assms(2) scripts(1) assms(3) scripts(3,4), of pre rest]
    by (simp add: S_def sb_def)
  have ri: "n < 2147483648 \<Longrightarrow> readInt (cursor pre (int_bytes (int n) @ rest))
              = Inr (int n, cursor (pre @ int_bytes (int n)) rest)" for n pre rest
    by (rule readInt_written [OF int32_length])
  have h: "\<lparr>Version = Version h, GridSize = GridSize h, ControlsHeaders = ?cs, Files = Files h,
            DesignerScript = DesignerScript h\<rparr> = h"
    by (cases h) simp
  from ver(1) have nv: "\<not> Version h < 3"
    by simp
  have sk: "(cursor (int_bytes (Version h)) (x @ rest))\<lparr>offset := offset (cursor (int_bytes (Version h)) (x @ rest)) + 4\<rparr>
              = cursor (int_bytes (Version h) @ x) rest" for rest
    by (rule skip_written [OF assms(4)])
  show ?thesis
    by (simp only: readLayoutHeader_def tail append_assoc rv rbind_simps prod.case Let_def nv if_False
        sk rg rc ri [OF ncs] ri [OF files(2)] rn rf rs nat_int layout_header.simps h)
qed

subsection \<open>The body of a well-formed document\<close>

lemma in_mode_off:
  "value_in_mode False v = v"
  "props_in_mode False ps = ps"
  by (induction False v and False ps rule: value_in_mode_props_in_mode.induct) simp_all

lemma body_in_mode_off: "body_in_mode False data = data"
  by (cases data) (simp_all add: body_in_mode_def in_mode_off)

lemma writeAllLayout_bytes:
  assumes "wf_body P data"
  shows "writeAllLayout P toBil w vs data = Inr (w @ body_bytes P toBil vs data)"
proof -
  from assms obtain ps where data: "data = JObj ps None" and wf: "wf_props P ps"
    by (cases data) (auto simp add: wf_body_def)
  obtain cache order where c: "collect_props ps ([], []) = (cache, order)"
    by (cases "collect_props ps ([], [])")
  from collect_body [OF wf] have ok: "cache_ok (cache, order)"
    and own: "\<forall>s\<in>set (props_strings ps). has_own cache s"
    by (simp_all add: c)
  have v: "foldl writeVariant w' vs = w' @ concat (map variant_bytes vs)" for w'
    by (rule foldl_write) (rule writeVariant_bytes)
  show ?thesis
    by (simp add: writeAllLayout_def body_bytes_def data c own_props_def v writeInt_bytes
        writeMap_bytes [OF ok wf own] writeString_bytes writeByte_bytes writeBytes_def
        writeStringsCacheInOrder_bytes)
qed

lemma readMap_body:
  assumes enc0: "utf8_encode P [] = []" and ok: "cache_ok (cache, order)"
    and len: "length order < 2147483648" and wf: "wf_props P ps"
    and own: "\<forall>s\<in>set (props_strings ps). has_own cache s"
    and can: "canonical_keys (map fst ps)" and fuel: "Suc (props_fuel ps) \<le> fuel"
  shows "readMap P fuel order ([], None)
           (cursor pre (map_bytes P toBil cache ps @ string_bytes P [] @ 4 # post))
         = Some (Inr (JObj (props_in_mode toBil ps) None,
                      cursor (pre @ map_bytes P toBil cache ps @ string_bytes P [] @ [4]) post))"
proof -
  let ?mb = "map_bytes P toBil cache ps"
  have fin: "readMap P (Suc 0) order (fst ([], None) @ props_in_mode toBil ps, snd ([], None))
               (cursor (pre @ ?mb) (string_bytes P [] @ 4 # post))
             = Some (Inr (JObj (props_in_mode toBil ps) None,
                          cursor (pre @ ?mb @ string_bytes P [] @ [4]) post))"
    using readMap_end [OF enc0, of 0 order "(props_in_mode toBil ps, None)" "pre @ ?mb" post]
    by simp
  have c: "canonical_keys (map fst (fst ([], None)) @ map fst (props_in_mode toBil ps))"
    using canonical_props_in_mode [OF can] by simp
  show ?thesis
    by (rule read_back(2) [OF ok len enc0 wf own c fin]) (use fuel in simp)
qed

subsection \<open>Encoding and decoding a well-formed document\<close>

lemma encode_bytes:
  assumes "wf_design P d"
  shows "convertJsonToBjlToBytes P toBil d
           = Inr (int_bytes (Version (LayoutHeader d))
                  @ int_bytes (int (length (header_tail P (LayoutHeader d) (Variants d))))
                  @ header_tail P (LayoutHeader d) (Variants d)
                  @ body_bytes P toBil (Variants d) (Data d)
                  @ [if FontAwesome d then 1 else 0, if MaterialIcons d then 1 else 0])"
proof -
  from assms have h: "wf_header P (LayoutHeader d) (Variants d)" and b: "wf_body P (Data d)"
    by (simp_all add: wf_design_def)
  show ?thesis
    by (simp add: convertJsonToBjlToBytes_def writeLayoutHeader_bytes [OF h]
        writeAllLayout_bytes [OF b] writeByte_bytes)
qed

lemma decode_written:
  assumes "wf_design P d" and "length x = 4" and "body_fuel (Data d) \<le> fuel"
  shows "convertBjlToJsonFromBytes P fuel
           (int_bytes (Version (LayoutHeader d)) @ x
            @ header_tail P (LayoutHeader d) (Variants d)
            @ body_bytes P toBil (Variants d) (Data d)
            @ [if FontAwesome d then 1 else 0, if MaterialIcons d then 1 else 0])
         = Some (Inr (d\<lparr>Data := body_in_mode toBil (Data d)\<rparr>))"
proof -
  let ?h = "LayoutHeader d" and ?vs = "Variants d"
  from assms(1) have enc0: "utf8_encode P [] = []" and h: "wf_header P ?h ?vs"
    and vs: "list_all variant_ok ?vs" and nvs: "length ?vs < 2147483648" and b: "wf_body P (Data d)"
    by (simp_all add: wf_design_def)
  from b obtain ps where data: "Data d = JObj ps None" and wf: "wf_props P ps"
    and can: "canonical_keys (map fst ps)"
    and norder: "length (snd (collect_props ps ([], []))) < 2147483648"
    by (cases "Data d") (auto simp add: wf_body_def)
  obtain cache order where c: "collect_props ps ([], []) = (cache, order)"
    by (cases "collect_props ps ([], [])")
  from collect_body [OF wf] norder have ok: "cache_ok (cache, order)"
    and sok: "list_all (string_ok P) order" and own: "\<forall>s\<in>set (props_strings ps). has_own cache s"
    and len: "length order < 2147483648"
    by (simp_all add: c)
  from assms(3) have fuel: "Suc (props_fuel ps) \<le> fuel"
    by (simp add: body_fuel_def data own_props_def)
  define H where "H = int_bytes (Version ?h) @ x @ header_tail P ?h ?vs"
  define C where "C = int_bytes (int (length order)) @ concat (map (string_bytes P) order)"
  define V where "V = concat (map variant_bytes ?vs)"
  define M where "M = map_bytes P toBil cache ps @ string_bytes P [] @ [4]"
  define fa :: byte where "fa = (if FontAwesome d then 1 else 0)"
  define mi :: byte where "mi = (if MaterialIcons d then 1 else 0)"
  have bytes: "int_bytes (Version ?h) @ x @ header_tail P ?h ?vs @ body_bytes P toBil ?vs (Data d)
                 @ [if FontAwesome d then 1 else 0, if MaterialIcons d then 1 else 0]
               = H @ C @ int_bytes (int (length ?vs)) @ V @ M @ int_bytes 0 @ [fa, mi]"
    by (simp add: H_def C_def V_def M_def fa_def mi_def body_bytes_def data c own_props_def)
  have rh: "readLayoutHeader P \<lparr>buffer = H @ rest, offset = 0\<rparr> = Inr (?h, cursor H rest)" for rest
    using readLayoutHeader_written [OF h vs nvs assms(2), of rest]
    by (simp add: H_def cursor_start)
  from h have nv: "\<not> Version ?h < 3"
    by (simp add: wf_header_def)
  have rc: "loadStringsCache P (cursor pre (C @ rest)) = Inr (order, cursor (pre @ C) rest)" for pre rest
    using loadStringsCache_written [OF sok len, of pre rest] by (simp add: C_def)
  have ri: "readInt (cursor pre (int_bytes (int (length ?vs)) @ rest))
              = Inr (int (length ?vs), cursor (pre @ int_bytes (int (length ?vs))) rest)" for pre rest
    by (rule readInt_written [OF int32_length [OF nvs]])
  have rv: "read_n (length ?vs) read_variant (cursor pre (V @ rest)) = Inr (?vs, cursor (pre @ V) rest)"
    for pre rest
    unfolding V_def
  proof (rule read_n_written)
    fix v pre post
    assume "v \<in> set ?vs"
    with vs have "variant_ok v"
      by (simp add: list_all_iff)
    then show "read_variant (cursor pre (variant_bytes v @ post)) = Inr (v, cursor (pre @ variant_bytes v) post)"
      by (rule read_variant_written)
  qed
  have rm: "readMap P fuel order ([], None) (cursor pre (M @ rest))
              = Some (Inr (JObj (props_in_mode toBil ps) None, cursor (pre @ M) rest))" for pre rest
    using readMap_body [where toBil = toBil and pre = pre and post = rest, OF enc0 ok len wf own can fuel]
    by (simp add: M_def)
  have rp: "readInt (cursor pre (int_bytes 0 @ rest)) = Inr (0, cursor (pre @ int_bytes 0) rest)" for pre rest
    by (rule readInt_written [OF int32_0])
  have rfa: "readSignedByte (cursor pre (fa # rest)) = Inr (sint fa, cursor (pre @ [fa]) rest)" for pre rest
    by (rule readSignedByte_cursor)
  have rmi: "readSignedByte (cursor pre (mi # rest)) = Inr (sint mi, cursor (pre @ [mi]) rest)" for pre rest
    by (rule readSignedByte_cursor)
  have flags: "(sint fa = 1) = FontAwesome d" "(sint mi = 1) = MaterialIcons d"
    by (simp_all add: fa_def mi_def)
  have res: "\<lparr>LayoutHeader = ?h, Variants = ?vs, Data = JObj (props_in_mode toBil ps) None,
              FontAwesome = FontAwesome d, MaterialIcons = MaterialIcons d\<rparr>
             = d\<lparr>Data := body_in_mode toBil (Data d)\<rparr>"
    using data by (cases d) (simp add: body_in_mode_def)
  show ?thesis
    by (simp only: bytes convertBjlToJsonFromBytes_def rh fbind_simps prod.case nv if_False rc ri rv
        nat_int rm rp append_Cons append_Nil rfa rmi flags res)
qed

subsection \<open>Two entries with one key, and the order of the keys\<close>

lemma map_bytes_concat:
  assumes "cache_ok (cache, order)"
  shows "wf_props P ps \<Longrightarrow> \<forall>s\<in>set (props_strings ps). has_own cache s \<Longrightarrow>
         map_bytes P False cache ps
           = concat (map (\<lambda>(k, v). ref_bytes cache k @ value_bytes P False cache v) ps)"
proof (induction ps)
  case Nil
  show ?case by simp
next
  case (Cons p ps)
  obtain k v where p: "p = (k, v)"
    by (cases p)
  from Cons.prems have "wf_props P ps" and "\<forall>s\<in>set (props_strings ps). has_own cache s"
    by (simp_all add: p)
  note ih = Cons.IH [OF this]
  from map_bytes_Cons [OF assms Cons.prems [unfolded p], of False] show ?case
    by (simp add: p ih)
qed

text \<open>
  C4, as stated, fails. From a wire form with two entries for the key \<open>a\<close> the decoder
  returns a map with one entry for \<open>a\<close>, holding the value of the second. From a wire
  form with the entries \<open>b\<close> and then \<open>1\<close> it returns a map whose keys are \<open>1\<close> and
  then \<open>b\<close>, and the encoder writes the entry of \<open>1\<close> first: the order is that of
  \<open>Object.keys\<close>, not that of the insertions.
\<close>

theorem duplicate_key_counterexample:
  "readMap ascii_platform 3 [''a''] ([], None)
     (cursor [] [0, 0, 0, 0, 1, 1, 0, 0, 0, 0, 0, 0, 0, 1, 2, 0, 0, 0, 0, 0, 0, 0, 4])
     = Some (Inr (JObj [(''a'', JNum 2)] None,
                  cursor [0, 0, 0, 0, 1, 1, 0, 0, 0, 0, 0, 0, 0, 1, 2, 0, 0, 0, 0, 0, 0, 0, 4] []))
   \<and> readMap ascii_platform 3 [''b'', ''1''] ([], None)
     (cursor [] [0, 0, 0, 0, 1, 1, 0, 0, 0, 1, 0, 0, 0, 1, 2, 0, 0, 0, 0, 0, 0, 0, 4])
     = Some (Inr (JObj [(''1'', JNum 2), (''b'', JNum 1)] None,
                  cursor [0, 0, 0, 0, 1, 1, 0, 0, 0, 1, 0, 0, 0, 1, 2, 0, 0, 0, 0, 0, 0, 0, 4] []))
   \<and> writeMap ascii_platform False [(''b'', 0), (''1'', 1)] []
       [(''1'', JNum 2), (''b'', JNum 1)]
     = Inr [1, 0, 0, 0, 1, 2, 0, 0, 0, 0, 0, 0, 0, 1, 1, 0, 0, 0]"
  by (simp add: decode_defs encode_defs writer_defs cursor_simps
      cong: rbind_weak_cong fbind_weak_cong)

text \<open>
  C4, amended. \<open>_readMap\<close> holds one entry per key. When it decodes an entry with the key
  \<open>k\<close> and the value \<open>x\<close> (a scalar, a tagged value or a nested map), it goes on with the
  map after \<open>map[k] = x\<close>. For \<open>k\<close> other than \<open>__proto__\<close>: the prototype is unchanged and
  the value of \<open>k\<close> is \<open>x\<close>, the other keys keep their values; when \<open>k\<close> is already a
  key, the keys and their order are unchanged (the later entry wins); when \<open>k\<close> is new and
  not an array index, it is added at the end; keys in the order of \<open>Object.keys\<close> (distinct,
  array indices first in ascending order) stay in that order. For \<open>k = __proto__\<close> no entry
  is added: \<open>x\<close> becomes the prototype when it is an object or null, and is dropped
  otherwise. At the end marker the map built so far is returned, and the keys of a decoded
  map are in the order of \<open>Object.keys\<close>. With the reduced mode off, the encoder writes
  the entries of a well-formed map whose strings are in the cache one after the other in
  the order of its keys, each as the cache reference of the key followed by the bytes of
  the value: the type code 1 and the four bytes of an integer, the type code 5 and one byte
  for a boolean, the type code 9 and the cache reference of a string.
\<close>

theorem duplicate_keys_collapse:
  assumes "readCachedString P cache r = Inr (key, r1)" and "readSignedByte r1 = Inr (t, r2)"
    and "t \<noteq> ENDOFMAP"
    and "if t = CMAP then readMap P n cache ([], None) r2 = Some (Inr (x, r3))
         else read_scalar P cache t r2 = Some (Inr (x, r3))"
  shows "readMap P (Suc n) cache (ps, pr) r
           = readMap P n cache (obj_assign (to_key key) x (ps, pr)) r3
       \<and> (to_key key \<noteq> ''__proto__'' \<longrightarrow>
            snd (obj_assign (to_key key) x (ps, pr)) = pr
            \<and> map_of (fst (obj_assign (to_key key) x (ps, pr))) = (map_of ps)(to_key key \<mapsto> x)
            \<and> (has_own ps (to_key key) \<longrightarrow>
                 map fst (fst (obj_assign (to_key key) x (ps, pr))) = map fst ps)
            \<and> (\<not> has_own ps (to_key key) \<and> \<not> is_array_index (to_key key) \<longrightarrow>
                 fst (obj_assign (to_key key) x (ps, pr)) = ps @ [(to_key key, x)])
            \<and> (canonical_keys (map fst ps) \<longrightarrow>
                 canonical_keys (map fst (fst (obj_assign (to_key key) x (ps, pr))))))
       \<and> (to_key key = ''__proto__'' \<longrightarrow>
            obj_assign (to_key key) x (ps, pr)
              = (ps, if is_object x \<or> x = JNull then Some x else pr))
       \<and> (readCachedString P cache q = Inr (key', q1) \<and> readSignedByte q1 = Inr (ENDOFMAP, q2) \<longrightarrow>
            readMap P (Suc m) cache (ps, pr) q = Some (Inr (JObj ps pr, q2)))
       \<and> (readMap P m cache ([], None) q = Some (Inr (v, q')) \<longrightarrow>
            (\<exists>qs qr. v = JObj qs qr \<and> canonical_keys (map fst qs)))
       \<and> (cache_ok (ecache, order) \<and> wf_props P es \<and> (\<forall>s\<in>set (props_strings es). has_own ecache s) \<longrightarrow>
            writeMap P False ecache w es
              = Inr (w @ concat (map (\<lambda>(k, v). ref_bytes ecache k @ value_bytes P False ecache v) es)))
       \<and> value_bytes P False ecache (JNum i) = 1 # int_bytes i
       \<and> value_bytes P False ecache (JBool b) = [5, if b then 1 else 0]
       \<and> (cache_ok (ecache, order) \<and> has_own ecache s \<longrightarrow>
            value_bytes P False ecache (JStr s) = 9 # ref_bytes ecache s)"
proof (intro conjI impI)
  show "readMap P (Suc n) cache (ps, pr) r
           = readMap P n cache (obj_assign (to_key key) x (ps, pr)) r3"
    using assms by (cases "t = 3") simp_all
  show "snd (obj_assign (to_key key) x (ps, pr)) = pr" if "to_key key \<noteq> ''__proto__''"
    using that by (simp add: obj_assign_def)
  show "map_of (fst (obj_assign (to_key key) x (ps, pr))) = (map_of ps)(to_key key \<mapsto> x)"
    if "to_key key \<noteq> ''__proto__''"
    using that by (simp add: obj_assign_def map_of_props_set)
  show "map fst (fst (obj_assign (to_key key) x (ps, pr))) = map fst ps"
    if "to_key key \<noteq> ''__proto__''" and "has_own ps (to_key key)"
    using that by (simp add: obj_assign_def props_set_def map_fst_props_update)
  show "fst (obj_assign (to_key key) x (ps, pr)) = ps @ [(to_key key, x)]"
    if "to_key key \<noteq> ''__proto__''" and "\<not> has_own ps (to_key key) \<and> \<not> is_array_index (to_key key)"
    using that by (simp add: obj_assign_def props_set_def)
  show "canonical_keys (map fst (fst (obj_assign (to_key key) x (ps, pr))))"
    if "to_key key \<noteq> ''__proto__''" and "canonical_keys (map fst ps)"
    using that canonical_obj_assign [of "(ps, pr)" "to_key key" x] by simp
  show "obj_assign (to_key key) x (ps, pr) = (ps, if is_object x \<or> x = JNull then Some x else pr)"
    if "to_key key = ''__proto__''"
    using that by (simp add: obj_assign_def)
  show "readMap P (Suc m) cache (ps, pr) q = Some (Inr (JObj ps pr, q2))"
    if "readCachedString P cache q = Inr (key', q1) \<and> readSignedByte q1 = Inr (ENDOFMAP, q2)"
    using that by simp
  show "\<exists>qs qr. v = JObj qs qr \<and> canonical_keys (map fst qs)"
    if "readMap P m cache ([], None) q = Some (Inr (v, q'))"
    using readMap_canonical [OF that] by (simp add: canonical_keys_def)
  show "writeMap P False ecache w es
          = Inr (w @ concat (map (\<lambda>(k, v). ref_bytes ecache k @ value_bytes P False ecache v) es))"
    if "cache_ok (ecache, order) \<and> wf_props P es \<and> (\<forall>s\<in>set (props_strings es). has_own ecache s)"
  proof -
    from that have a: "cache_ok (ecache, order)" and b: "wf_props P es"
      and c: "\<forall>s\<in>set (props_strings es). has_own ecache s"
      by simp_all
    show ?thesis
      by (simp only: writeMap_bytes [OF a b c] map_bytes_concat [OF a b c])
  qed
  show "value_bytes P False ecache (JNum i) = 1 # int_bytes i"
    by (rule value_bytes_forms)
  show "value_bytes P False ecache (JBool b) = [5, if b then 1 else 0]"
    by (rule value_bytes_forms)
  show "value_bytes P False ecache (JStr s) = 9 # ref_bytes ecache s"
    if "cache_ok (ecache, order) \<and> has_own ecache s"
    using that value_bytes_str [of ecache order s P False] by simp
qed

theorem duplicate_keys_collapse_witness:
  "readMap ascii_platform 3 [''a''] ([], None)
     (cursor [] [0, 0, 0, 0, 1, 1, 0, 0, 0, 0, 0, 0, 0, 1, 2, 0, 0, 0, 0, 0, 0, 0, 4])
     = Some (Inr (JObj [(''a'', JNum 2)] None,
                  cursor [0, 0, 0, 0, 1, 1, 0, 0, 0, 0, 0, 0, 0, 1, 2, 0, 0, 0, 0, 0, 0, 0, 4] []))
   \<and> writeMap ascii_platform False [(''a'', 0), (''b'', 1)] [] [(''a'', JNum 2), (''b'', JNum 5)]
     = Inr [0, 0, 0, 0, 1, 2, 0, 0, 0, 1, 0, 0, 0, 1, 5, 0, 0, 0]"
proof -
  let ?c = "[''a'']"
  let ?b = "[0, 0, 0, 0, 1, 1, 0, 0, 0, 0, 0, 0, 0, 1, 2, 0, 0, 0, 0, 0, 0, 0, 4] :: byte list"
  let ?at = "\<lambda>n. cursor (take n ?b) (drop n ?b)"
  have k1: "readCachedString ascii_platform ?c (cursor [] ?b) = Inr (Some ''a'', ?at 4)"
    by (simp add: readCachedString_def array_get_def cursor_simps)
  have t1: "readSignedByte (?at 4) = Inr (1, ?at 5)"
    by (simp add: cursor_simps)
  have n1: "(1::int) \<noteq> 4"
    by simp
  have v1: "if (1::int) = 3 then readMap ascii_platform 2 ?c ([], None) (?at 5) = Some (Inr (JNum 1, ?at 9))
            else read_scalar ascii_platform ?c 1 (?at 5) = Some (Inr (JNum 1, ?at 9))"
    by (simp add: read_scalar_def cursor_simps)
  have k2: "readCachedString ascii_platform ?c (?at 9) = Inr (Some ''a'', ?at 13)"
    by (simp add: readCachedString_def array_get_def cursor_simps)
  have t2: "readSignedByte (?at 13) = Inr (1, ?at 14)"
    by (simp add: cursor_simps)
  have v2: "if (1::int) = 3 then readMap ascii_platform 1 ?c ([], None) (?at 14) = Some (Inr (JNum 2, ?at 18))
            else read_scalar ascii_platform ?c 1 (?at 14) = Some (Inr (JNum 2, ?at 18))"
    by (simp add: read_scalar_def cursor_simps)
  have k3: "readCachedString ascii_platform ?c (?at 18) = Inr (Some ''a'', ?at 22)"
    by (simp add: readCachedString_def array_get_def cursor_simps)
  have t3: "readSignedByte (?at 22) = Inr (4, ?at 23)"
    by (simp add: cursor_simps)
  have a1: "obj_assign (to_key (Some ''a'')) (JNum 1) ([], None) = ([(''a'', JNum 1)], None)"
    by (simp add: decode_defs)
  have a2: "obj_assign (to_key (Some ''a'')) (JNum 2) ([(''a'', JNum 1)], None) = ([(''a'', JNum 2)], None)"
    by (simp add: decode_defs)
  have s1: "readMap ascii_platform (Suc 2) ?c ([], None) (cursor [] ?b)
              = readMap ascii_platform 2 ?c ([(''a'', JNum 1)], None) (?at 9)"
    using duplicate_keys_collapse [OF k1 t1 n1 v1, of "[]" None] by (simp only: a1)
  have s2: "readMap ascii_platform (Suc 1) ?c ([(''a'', JNum 1)], None) (?at 9)
              = readMap ascii_platform 1 ?c ([(''a'', JNum 2)], None) (?at 18)"
    using duplicate_keys_collapse [OF k2 t2 n1 v2, of "[(''a'', JNum 1)]" None] by (simp only: a2)
  have s3: "readMap ascii_platform (Suc 0) ?c ([(''a'', JNum 2)], None) (?at 18)
              = Some (Inr (JObj [(''a'', JNum 2)] None, ?at 23))"
    using duplicate_keys_collapse [OF k2 t2 n1 v2, where q = "?at 18" and key' = "Some ''a''"
        and ?q1.0 = "?at 22" and ?q2.0 = "?at 23" and m = 0 and ps = "[(''a'', JNum 2)]" and pr = None]
      k3 t3
    by simp
  have d: "readMap ascii_platform 3 ?c ([], None) (cursor [] ?b)
             = Some (Inr (JObj [(''a'', JNum 2)] None, ?at 23))"
    using s1 s2 s3 by (simp only: numeral_3_eq_3 numeral_2_eq_2 One_nat_def)
  have ok: "cache_ok ([(''a'', 0), (''b'', 1)], [''a'', ''b''])"
    using collect_cache_ok(1) [OF cache_ok_empty, of "JObj [(''a'', JNum 2), (''b'', JNum 5)] None"]
    by (simp add: encode_defs)
  have wf: "wf_props ascii_platform [(''a'', JNum 2), (''b'', JNum 5)]"
    by (simp add: cached_ok_def string_ok_def int32_def object_prototype_keys_def platform_defs)
  have own: "\<forall>s\<in>set (props_strings [(''a'', JNum 2), (''b'', JNum 5)]). has_own [(''a'', 0), (''b'', 1)] s"
    by (simp add: has_own_def)
  have e: "writeMap ascii_platform False [(''a'', 0), (''b'', 1)] [] [(''a'', JNum 2), (''b'', JNum 5)]
     = Inr [0, 0, 0, 0, 1, 2, 0, 0, 0, 1, 0, 0, 0, 1, 5, 0, 0, 0]"
    using duplicate_keys_collapse [OF k1 t1 n1 v1, where ecache = "[(''a'', 0), (''b'', 1)]"
        and order = "[''a'', ''b'']" and es = "[(''a'', JNum 2), (''b'', JNum 5)]" and w = "[]",
        THEN conjunct2, THEN conjunct2, THEN conjunct2, THEN conjunct2, THEN conjunct2,
        THEN conjunct1, THEN mp, OF conjI [OF ok conjI [OF wf own]]]
    by (simp add: value_bytes_forms ref_bytes_def int_bytes_def to_le32_def del: writeMap.simps)
  from d e show ?thesis
    by simp
qed

subsection \<open>A well-formed document\<close>

lemma collect_props_Cons2:
  "collect_props ((k, v) # p # ps) st = collect_props (p # ps) (collect_props [(k, v)] st)"
  by (rule collect_props_Cons)

lemma collect_props_tagged:
  "t \<noteq> 2 \<Longrightarrow> collect_props [(k, tagged t x)] st = cache_add k st"
  by (simp add: Let_def is_object_def tagged_def)

lemmas cache_defs = cache_add_def in_obj_def has_own_def object_prototype_keys_def props_set_def
  is_array_index_def is_digit_def

lemmas collect_simps = collect_props_Cons2 collect_props_scalar collect_props_tagged collect_props_map

lemma example_cache:
  "collectStringsInOrder (Data example_design) ([], [])
     = ([(''a'', 0), (''n'', 1), (''r'', 2), (''m'', 3), (''z'', 4), (''k'', 5), (''x'', 6)],
        [''a'', ''n'', ''r'', ''m'', ''z'', ''k'', ''x''])"
  by (simp add: example_design_def collect_simps cache_defs del: collect_props.simps)

lemma example_header:
  "wf_header ascii_platform (LayoutHeader example_design) (Variants example_design)"
  by (simp add: example_design_def wf_header_def int32_def control_ok_def name_ok_def cached_ok_def
      string_ok_def script_ok_def encode_defs writer_defs platform_defs)

lemma example_body: "wf_body ascii_platform (Data example_design)"
proof -
  have l: "length (snd (collectStringsInOrder (Data example_design) ([], []))) < 2147483648"
    by (simp add: example_cache)
  have p: "wf_props ascii_platform (own_props (Data example_design))"
    by (simp add: example_design_def own_props_def wf_tagged_def tagged_def tagged_null_def rect_ok_def
        num_list_def int16_def int32_def cached_ok_def string_ok_def canonical_keys_def
        is_array_index_def is_digit_def object_prototype_keys_def platform_defs)
  have c: "canonical_keys (map fst (own_props (Data example_design)))"
    by (simp add: example_design_def own_props_def canonical_keys_def is_array_index_def is_digit_def)
  have d: "\<exists>ps. Data example_design = JObj ps None"
    by (simp add: example_design_def)
  then obtain ps where ps: "Data example_design = JObj ps None"
    by blast
  from l p c show ?thesis
    by (simp add: wf_body_def ps own_props_def del: collectStringsInOrder.simps)
qed

lemma example_wf: "wf_design ascii_platform example_design"
proof -
  have "list_all variant_ok (Variants example_design)"
    by (simp add: example_design_def variant_ok_def int32_def f32_falsy_def is_nan_def)
  moreover have "length (Variants example_design) < 2147483648"
    by (simp add: example_design_def)
  moreover have "utf8_encode ascii_platform [] = []"
    by (simp add: platform_defs)
  ultimately show ?thesis
    using example_header example_body by (simp add: wf_design_def)
qed

lemma example_fuel: "body_fuel (Data example_design) \<le> 15"
  by (simp add: example_design_def body_fuel_def own_props_def tagged_def tagged_null_def)

lemma example_header_tail:
  "header_tail ascii_platform (LayoutHeader example_design) (Variants example_design)
     = [8, 0, 0, 0, 2, 0, 0, 0, 2, 0, 0, 0, 98, 49, 1, 0, 0, 0, 66, 1, 0, 0, 0, 0, 0, 0, 0,
        1, 0, 0, 0, 1, 0, 0, 0, 1, 0, 0, 0, 1, 0, 0, 0, 102, 22, 0, 0, 0, 31, 139, 1, 103,
        1, 0, 0, 0, 0, 0, 128, 63, 64, 1, 0, 0, 224, 1, 0, 0, 1, 118]"
  by (simp add: example_design_def header_tail_def control_bytes_def ref_bytes_def int_bytes_def
      string_bytes_def encode_defs writer_defs platform_defs)

lemma example_map_bytes:
  "map_bytes ascii_platform False
     [(''a'', 0), (''n'', 1), (''r'', 2), (''m'', 3), (''z'', 4), (''k'', 5), (''x'', 6)]
     (own_props (Data example_design))
   = [0, 0, 0, 0, 1, 1, 0, 0, 0, 1, 0, 0, 0, 12, 2, 0, 0, 0, 11, 1, 0, 2, 0, 3, 0, 4, 0,
      3, 0, 0, 0, 3, 4, 0, 0, 0, 12, 5, 0, 0, 0, 9, 6, 0, 0, 0, 0, 0, 0, 0, 4]"
  "map_bytes ascii_platform True
     [(''a'', 0), (''n'', 1), (''r'', 2), (''m'', 3), (''z'', 4), (''k'', 5), (''x'', 6)]
     (own_props (Data example_design))
   = [0, 0, 0, 0, 1, 1, 0, 0, 0, 3, 0, 0, 0, 3, 5, 0, 0, 0, 9, 6, 0, 0, 0, 0, 0, 0, 0, 4]"
  by (simp_all add: example_design_def map_bytes_def own_props_def encode_defs writer_defs
      platform_defs get_prop.simps num_list_def shortsToBytes_def)

lemma example_body_bytes:
  "body_bytes ascii_platform False (Variants example_design) (Data example_design)
   = [7, 0, 0, 0, 1, 0, 0, 0, 97, 1, 0, 0, 0, 110, 1, 0, 0, 0, 114, 1, 0, 0, 0, 109,
      1, 0, 0, 0, 122, 1, 0, 0, 0, 107, 1, 0, 0, 0, 120,
      1, 0, 0, 0, 0, 0, 128, 63, 64, 1, 0, 0, 224, 1, 0, 0,
      0, 0, 0, 0, 1, 1, 0, 0, 0, 1, 0, 0, 0, 12, 2, 0, 0, 0, 11, 1, 0, 2, 0, 3, 0, 4, 0,
      3, 0, 0, 0, 3, 4, 0, 0, 0, 12, 5, 0, 0, 0, 9, 6, 0, 0, 0, 0, 0, 0, 0, 4,
      0, 0, 0, 0, 4, 0, 0, 0, 0]"
  "body_bytes ascii_platform True (Variants example_design) (Data example_design)
   = [7, 0, 0, 0, 1, 0, 0, 0, 97, 1, 0, 0, 0, 110, 1, 0, 0, 0, 114, 1, 0, 0, 0, 109,
      1, 0, 0, 0, 122, 1, 0, 0, 0, 107, 1, 0, 0, 0, 120,
      1, 0, 0, 0, 0, 0, 128, 63, 64, 1, 0, 0, 224, 1, 0, 0,
      0, 0, 0, 0, 1, 1, 0, 0, 0, 3, 0, 0, 0, 3, 5, 0, 0, 0, 9, 6, 0, 0, 0, 0, 0, 0, 0, 4,
      0, 0, 0, 0, 4, 0, 0, 0, 0]"
  by (simp_all only: body_bytes_def example_cache prod.case Let_def example_map_bytes)
     (simp_all add: example_design_def int_bytes_def string_bytes_def variant_bytes_def
        scale_or_1_def f32_falsy_def is_nan_def int_or_def writer_defs platform_defs)

lemma example_encode:
  "convertJsonToBjlToBytes ascii_platform False example_design
   = Inr [4, 0, 0, 0, 70, 0, 0, 0,
          8, 0, 0, 0, 2, 0, 0, 0, 2, 0, 0, 0, 98, 49, 1, 0, 0, 0, 66, 1, 0, 0, 0, 0, 0, 0, 0,
          1, 0, 0, 0, 1, 0, 0, 0, 1, 0, 0, 0, 1, 0, 0, 0, 102, 22, 0, 0, 0, 31, 139, 1, 103,
          1, 0, 0, 0, 0, 0, 128, 63, 64, 1, 0, 0, 224, 1, 0, 0, 1, 118,
          7, 0, 0, 0, 1, 0, 0, 0, 97, 1, 0, 0, 0, 110, 1, 0, 0, 0, 114, 1, 0, 0, 0, 109,
          1, 0, 0, 0, 122, 1, 0, 0, 0, 107, 1, 0, 0, 0, 120,
          1, 0, 0, 0, 0, 0, 128, 63, 64, 1, 0, 0, 224, 1, 0, 0,
          0, 0, 0, 0, 1, 1, 0, 0, 0, 1, 0, 0, 0, 12, 2, 0, 0, 0, 11, 1, 0, 2, 0, 3, 0, 4, 0,
          3, 0, 0, 0, 3, 4, 0, 0, 0, 12, 5, 0, 0, 0, 9, 6, 0, 0, 0, 0, 0, 0, 0, 4,
          0, 0, 0, 0, 4, 0, 0, 0, 0, 1, 0]"
  by (simp only: encode_bytes [OF example_wf] example_header_tail example_body_bytes)
     (simp add: example_design_def int_bytes_def writer_defs)

lemma example_encode_reduced:
  "convertJsonToBjlToBytes ascii_platform True example_design
   = Inr [4, 0, 0, 0, 70, 0, 0, 0,
          8, 0, 0, 0, 2, 0, 0, 0, 2, 0, 0, 0, 98, 49, 1, 0, 0, 0, 66, 1, 0, 0, 0, 0, 0, 0, 0,
          1, 0, 0, 0, 1, 0, 0, 0, 1, 0, 0, 0, 1, 0, 0, 0, 102, 22, 0, 0, 0, 31, 139, 1, 103,
          1, 0, 0, 0, 0, 0, 128, 63, 64, 1, 0, 0, 224, 1, 0, 0, 1, 118,
          7, 0, 0, 0, 1, 0, 0, 0, 97, 1, 0, 0, 0, 110, 1, 0, 0, 0, 114, 1, 0, 0, 0, 109,
          1, 0, 0, 0, 122, 1, 0, 0, 0, 107, 1, 0, 0, 0, 120,
          1, 0, 0, 0, 0, 0, 128, 63, 64, 1, 0, 0, 224, 1, 0, 0,
          0, 0, 0, 0, 1, 1, 0, 0, 0, 3, 0, 0, 0, 3, 5, 0, 0, 0, 9, 6, 0, 0, 0, 0, 0, 0, 0, 4,
          0, 0, 0, 0, 4, 0, 0, 0, 0, 1, 0]"
  by (simp only: encode_bytes [OF example_wf] example_header_tail example_body_bytes)
     (simp add: example_design_def int_bytes_def writer_defs)

subsection \<open>Encoding and decoding again\<close>




subsection \<open>The reduced mode\<close>

lemma show_nat_digits: "show_nat n \<noteq> [] \<and> list_all is_digit (show_nat n)"
proof (induction n rule: show_nat.induct)
  case (1 n)
  have d: "is_digit (hex_digit m)" if "m < 10" for m
  proof -
    from that have "m \<in> {0, 1, 2, 3, 4, 5, 6, 7, 8, 9}"
      by auto
    then show ?thesis
      by (auto simp add: hex_digit_def is_digit_def)
  qed
  show ?case
  proof (cases "n < 10")
    case True
    then show ?thesis
      by (subst show_nat.simps, subst (2) show_nat.simps) (simp add: d)
  next
    case False
    with 1 have "list_all is_digit (show_nat (n div 10))"
      by simp
    with False show ?thesis
      by (subst show_nat.simps, subst (2) show_nat.simps) (simp add: d)
  qed
qed

lemma index_keys_untagged:
  "map_of (props_in_mode toBil (zip (map show_nat ns) xs)) ''ValueType'' = None"
proof -
  have "k \<noteq> ''ValueType''" if "k \<in> set (map show_nat ns)" for k
  proof -
    from that obtain n where "k = show_nat n"
      by auto
    with show_nat_digits [of n] have "list_all is_digit k"
      by simp
    then show ?thesis
      by (auto simp add: is_digit_def)
  qed
  moreover have "set (map fst (props_in_mode toBil (zip (map show_nat ns) xs))) \<subseteq> set (map show_nat ns)"
  proof -
    have "set (map fst (zip (map show_nat ns) xs)) \<subseteq> set (map show_nat ns)"
      by (auto dest: set_zip_leftD)
    with keys_props_in_mode [of toBil "zip (map show_nat ns) xs"] show ?thesis
      by (rule subset_trans)
  qed
  ultimately have "''ValueType'' \<notin> set (map fst (props_in_mode toBil (zip (map show_nat ns) xs)))"
    by blast
  then show ?thesis
    by (simp add: map_of_eq_None_iff)
qed

lemma get_prop_in_mode:
  "get_prop (JObj ps pr) ''ValueType'' = JUndef \<Longrightarrow>
   get_prop (JObj (props_in_mode toBil ps) pr) ''ValueType'' = JUndef"
proof (induction ps)
  case Nil
  then show ?case by simp
next
  case (Cons p ps)
  obtain k v where p: "p = (k, v)"
    by (cases p)
  show ?case
  proof (cases "k = ''ValueType''")
    case True
    with Cons.prems have v: "v = JUndef"
      by (simp add: p)
    then show ?thesis
      by (simp add: p True skipped_in_bil_def is_object_def)
  next
    case False
    with Cons.prems have "get_prop (JObj ps pr) ''ValueType'' = JUndef"
      by (simp add: p)
    from Cons.IH [OF this] False show ?thesis
      by (auto simp add: p)
  qed
qed

lemma reduced_write:
  "write_value P toBil cache w v = write_value P False cache w (value_in_mode toBil v)"
  "writeMap P toBil cache w ps = writeMap P False cache w (props_in_mode toBil ps)"
proof (induction P toBil cache w v and P toBil cache w ps rule: write_value_writeMap.induct)
  case (1 P toBil cache w ps pr)
  show ?case
  proof (cases "get_prop (JObj ps pr) ''ValueType'' = JUndef")
    case True
    note u = get_prop_in_mode [OF True, of toBil]
    have a: "write_value P toBil cache w (JObj ps pr)
        = rbind (writeMap P toBil cache (writeByte w CMAP) ps) (\<lambda>w1.
            Inr (writeByte (writeString P w1 []) ENDOFMAP))"
      using True by (simp del: get_prop.simps)
    have b: "write_value P False cache w (JObj (props_in_mode toBil ps) pr)
        = rbind (writeMap P False cache (writeByte w CMAP) (props_in_mode toBil ps)) (\<lambda>w1.
            Inr (writeByte (writeString P w1 []) ENDOFMAP))"
      using u by (simp del: get_prop.simps)
    have c: "value_in_mode toBil (JObj ps pr) = JObj (props_in_mode toBil ps) pr"
      using True by (simp del: get_prop.simps)
    from True have "get_prop (JObj ps pr) ''ValueType'' = JUndef"
      by simp
    note ih = "1.IH" [OF refl]
    show ?thesis
      using ih True by (simp only: a b c) simp
  next
    case False
    then show ?thesis
      by (simp del: get_prop.simps)
  qed
next
  case (2 P toBil cache w xs)
  show ?case
  proof (cases toBil)
    case True
    let ?ps = "zip (map show_nat [0..<length xs]) xs"
    have u: "get_prop (JObj (props_in_mode toBil ?ps) None) ''ValueType'' = JUndef"
      by (simp add: index_keys_untagged)
    have b: "write_value P False cache w (JObj (props_in_mode toBil ?ps) None)
        = rbind (writeMap P False cache (writeByte w CMAP) (props_in_mode toBil ?ps)) (\<lambda>w1.
            Inr (writeByte (writeString P w1 []) ENDOFMAP))"
      using u by (simp del: get_prop.simps)
    have c: "value_in_mode toBil (JArr xs) = JObj (props_in_mode toBil ?ps) None"
      using True by simp
    show ?thesis
      using "2.IH" by (simp only: c b) simp
  next
    case False
    then show ?thesis
      using "2.IH" in_mode_off(2) by simp
  qed
next
  case (10 P toBil cache w k val ps)
  show ?case
  proof (cases "toBil \<and> skipped_in_bil val")
    case True
    then have "writeMap P toBil cache w ((k, val) # ps) = writeMap P toBil cache w ps"
      and "props_in_mode toBil ((k, val) # ps) = props_in_mode toBil ps"
      by simp_all
    then show ?thesis
      using "10.IH"(1) True by simp
  next
    case False
    then have a: "writeMap P toBil cache w ((k, val) # ps)
        = rbind (writeCachedString P w cache (Some k)) (\<lambda>w1.
          rbind (write_value P toBil cache w1 val) (\<lambda>w2. writeMap P toBil cache w2 ps))"
      by auto
    from False have c: "props_in_mode toBil ((k, val) # ps)
        = (k, value_in_mode toBil val) # props_in_mode toBil ps"
      by auto
    have b: "writeMap P False cache w ((k, value_in_mode toBil val) # props_in_mode toBil ps)
        = rbind (writeCachedString P w cache (Some k)) (\<lambda>w1.
          rbind (write_value P False cache w1 (value_in_mode toBil val)) (\<lambda>w2.
            writeMap P False cache w2 (props_in_mode toBil ps)))"
      by simp
    note v = "10.IH"(2) [OF False] and r = "10.IH"(3) [OF False]
    show ?thesis
      by (simp only: a b c v r)
  qed
qed simp_all

lemma props_in_mode_filter:
  "props_in_mode True ps
     = map (\<lambda>(k, v). (k, value_in_mode True v)) (filter (\<lambda>(k, v). \<not> skipped_in_bil v) ps)"
  by (induction ps) auto



subsection \<open>The header length\<close>

lemma readBytes_rewind:
  "len < 0 \<Longrightarrow> 0 \<le> int (length pre) + len \<Longrightarrow>
   readBytes len (cursor pre post)
     = ([], cursor (take (nat (int (length pre) + len)) pre)
              (drop (nat (int (length pre) + len)) pre @ post))"
  by (simp add: readBytes_def js_slice_def cursor_def Let_def min_def nat_add_distrib)




end
